theory Spec2Isabelle
  imports Main "HOL-Library.Word"
begin

unbundle bit_operations_syntax

section \<open>Bytes and errors\<close>

type_synonym byte = "8 word"
type_synonym bytes = "byte list"

text \<open>
  Every error value that the functions of \<^verbatim>\<open>encoding.go\<close> can return, and the one
  run-time panic they can raise (a store past the end of the children slice).
\<close>

datatype error =
    ErrUnexpectedEOF
  | ErrCanonSize
  | ErrValueTooLarge
  | ErrExpectedString
  | ErrExpectedList
  | ErrInvalidNodeEncoding
  | PanicIndexOutOfRange
  | ErrValueNotPresent
  | ErrInsertIntoHash
  | ErrInsertIntoLeaf
  | ErrDepthExceeded
  | ErrOpaque
  | ErrKeyOutOfOrder

section \<open>The raw RLP reader used by the parser\<close>

text \<open>
  \<^verbatim>\<open>encoding.go\<close> reads its input through four functions of the go-ethereum package
  \<^verbatim>\<open>rlp\<close> (file \<^verbatim>\<open>raw.go\<close>): \<^verbatim>\<open>Split\<close>, \<^verbatim>\<open>SplitString\<close>, \<^verbatim>\<open>SplitList\<close> and
  \<^verbatim>\<open>CountValues\<close>, all built on \<^verbatim>\<open>readKind\<close> and \<^verbatim>\<open>readSize\<close>. The package is an
  external dependency of the repository; the definitions below follow its code.
  Sizes are \<^verbatim>\<open>uint64\<close> there. A size read from at most eight bytes is below \<open>2 ^ 64\<close>
  and the only subtraction, \<^verbatim>\<open>uint64(len(buf)) - tagsize\<close>, is reached with
  \<^verbatim>\<open>tagsize \<le> len(buf)\<close>, so natural numbers compute the same values.
\<close>

datatype Kind = Byte | String | List

definition be_uint :: "bytes \<Rightarrow> nat" where
  "be_uint bs = foldl (\<lambda>s b. s * 256 + unat b) 0 bs"

definition readSize :: "bytes \<Rightarrow> nat \<Rightarrow> error + nat" where
  "readSize b slen =
     (if slen > length b then Inl ErrUnexpectedEOF
      else
        let s = (if 1 \<le> slen \<and> slen \<le> 8 then be_uint (take slen b) else 0)
        in if s < 56 \<or> b ! 0 = 0 then Inl ErrCanonSize else Inr s)"

definition readKind :: "bytes \<Rightarrow> error + (Kind \<times> nat \<times> nat)" where
  "readKind buf =
     (if length buf = 0 then Inl ErrUnexpectedEOF
      else
        let b = buf ! 0 in
          (case
             (if b < 0x80 then Inr (Byte, 0, 1)
              else if b < 0xB8 then
                (if unat (b - 0x80) = 1 \<and> length buf > 1 \<and> buf ! 1 < 128
                 then Inl ErrCanonSize
                 else Inr (String, 1, unat (b - 0x80)))
              else if b < 0xC0 then
                (case readSize (drop 1 buf) (unat (b - 0xB7)) of
                   Inl err \<Rightarrow> Inl err
                 | Inr s \<Rightarrow> Inr (String, unat (b - 0xB7) + 1, s))
              else if b < 0xF8 then Inr (List, 1, unat (b - 0xC0))
              else
                (case readSize (drop 1 buf) (unat (b - 0xF7)) of
                   Inl err \<Rightarrow> Inl err
                 | Inr s \<Rightarrow> Inr (List, unat (b - 0xF7) + 1, s)))
           of
             Inl err \<Rightarrow> Inl err
           | Inr (k, tagsize, contentsize) \<Rightarrow>
               if contentsize > length buf - tagsize then Inl ErrValueTooLarge
               else Inr (k, tagsize, contentsize)))"

definition Split :: "bytes \<Rightarrow> error + (Kind \<times> bytes \<times> bytes)" where
  "Split b =
     (case readKind b of
        Inl err \<Rightarrow> Inl err
      | Inr (k, ts, cs) \<Rightarrow> Inr (k, take cs (drop ts b), drop (ts + cs) b))"

definition SplitString :: "bytes \<Rightarrow> error + (bytes \<times> bytes)" where
  "SplitString b =
     (case Split b of
        Inl err \<Rightarrow> Inl err
      | Inr (k, content, rest) \<Rightarrow>
          if k = List then Inl ErrExpectedString else Inr (content, rest))"

definition SplitList :: "bytes \<Rightarrow> error + (bytes \<times> bytes)" where
  "SplitList b =
     (case Split b of
        Inl err \<Rightarrow> Inl err
      | Inr (k, content, rest) \<Rightarrow>
          if k \<noteq> List then Inl ErrExpectedList else Inr (content, rest))"

lemma readSize_ge: "readSize b slen = Inr s \<Longrightarrow> 56 \<le> s"
  by (auto simp: readSize_def Let_def split: if_splits)

lemma readSize_len: "readSize b slen = Inr s \<Longrightarrow> slen \<le> length b"
  by (auto simp: readSize_def Let_def split: if_splits)

lemma readSize_bounds:
  "readSize b slen = Inr s \<Longrightarrow> 56 \<le> s \<and> slen \<le> length b"
  using readSize_ge readSize_len by blast

lemma readKind_progress:
  assumes "readKind b = Inr (k, ts, cs)"
  shows "0 < ts + cs" and "ts + cs \<le> length b" and "b \<noteq> []"
proof -
  from assms obtain x xs where b: "b = x # xs"
    by (cases b) (auto simp: readKind_def)
  then show "b \<noteq> []" by simp
  from assms b show "0 < ts + cs"
    by (auto simp: readKind_def Let_def split: if_splits sum.splits)
  from assms b show "ts + cs \<le> length b"
    by (auto simp: readKind_def Let_def split: if_splits sum.splits
        dest!: readSize_bounds)
qed

text \<open>
  \<^verbatim>\<open>CountValues\<close> is a loop that consumes one value per round; every round removes at
  least one byte, which is the termination argument.
\<close>

function CountValues_loop :: "bytes \<Rightarrow> nat \<Rightarrow> error + nat" where
  "CountValues_loop b i =
     (if length b > 0 then
        (case readKind b of
           Inl err \<Rightarrow> Inl err
         | Inr (k, tagsize, sz) \<Rightarrow> CountValues_loop (drop (tagsize + sz) b) (i + 1))
      else Inr i)"
  by pat_completeness auto
termination
proof (relation "measure (\<lambda>(b, i). length b)")
  show "wf (measure (\<lambda>(b, i). length b))" by simp
next
  fix b :: bytes and i :: nat and x2 x y x2a xa ya
  assume "0 < length b" and "readKind b = Inr x2" and "(x, y) = x2" and "(xa, ya) = y"
  then have "readKind b = Inr (x, xa, ya)" by simp
  from readKind_progress(1)[OF this] \<open>0 < length b\<close>
  show "((drop (xa + ya) b, i + 1), b, i) \<in> measure (\<lambda>(b, i). length b)"
    by simp
qed

declare CountValues_loop.simps [simp del]

definition CountValues :: "bytes \<Rightarrow> error + nat" where
  "CountValues b = CountValues_loop b 0"

section \<open>Nodes and tree configuration\<close>

text \<open>
  Modelled from the spec: the declarations of \<^verbatim>\<open>TreeConfig\<close>, \<^verbatim>\<open>VerkleNode\<close>,
  \<^verbatim>\<open>LeafNode\<close>, \<^verbatim>\<open>HashedNode\<close>, \<^verbatim>\<open>InternalNode\<close>, \<^verbatim>\<open>newInternalNode\<close> and
  \<^verbatim>\<open>GetTreeConfig\<close> are in \<^verbatim>\<open>tree.go\<close>, which is not among the sources. The spec
  gives the configuration as the width \<open>w\<close> and the child count \<open>2 ^ w\<close> (together with the
  field modulus and the Lagrange basis, which no function verified here reads and which
  are left out), the leaf as a key and a value, the hashed node as a 32-byte hash, and
  the internal node as an array of exactly \<open>NodeChildren\<close> slots, each empty or owning
  one child, with an optional cached commitment, an optional cached hash, a depth and a
  reference to the configuration. A group element is identified with its 48-byte
  compressed form and a field element with its canonical representative.
\<close>

type_synonym G1Point = bytes
type_synonym Fr = nat

record TreeConfig =
  width :: nat
  nodeWidth :: nat

definition GetTreeConfig :: "nat \<Rightarrow> TreeConfig" where
  "GetTreeConfig w = \<lparr>width = w, nodeWidth = 2 ^ w\<rparr>"

datatype VerkleNode =
    LeafNode bytes bytes
  | HashedNode bytes
  | InternalNode "VerkleNode option list" nat "G1Point option" "Fr option" TreeConfig

fun children :: "VerkleNode \<Rightarrow> VerkleNode option list" where
  "children (InternalNode cs d c h tc) = cs"
| "children _ = []"

definition newInternalNode :: "nat \<Rightarrow> TreeConfig \<Rightarrow> VerkleNode" where
  "newInternalNode depth tc = InternalNode (replicate (nodeWidth tc) None) depth None None tc"

section \<open>The parser of \<^verbatim>\<open>encoding.go\<close>\<close>

text \<open>
  \<^verbatim>\<open>common.BytesToHash\<close> (go-ethereum) copies its argument into a zeroed 32-byte array:
  an argument longer than 32 bytes is first cropped from the left, and the copy is
  right-aligned. \<open>copy_into dst off src\<close> is Go's \<^verbatim>\<open>copy(dst[off:], src)\<close>.
\<close>

definition HashLength :: nat where
  "HashLength = 32"

definition copy_into :: "bytes \<Rightarrow> nat \<Rightarrow> bytes \<Rightarrow> bytes" where
  "copy_into dst off src =
     (let n = min (length dst - off) (length src)
      in take off dst @ take n src @ drop (off + n) dst)"

definition SetBytes :: "bytes \<Rightarrow> bytes" where
  "SetBytes b =
     (let b' = (if length b > HashLength then drop (length b - HashLength) b else b)
      in copy_into (replicate HashLength 0) (HashLength - length b') b')"

definition BytesToHash :: "bytes \<Rightarrow> bytes" where
  "BytesToHash b = SetBytes b"

definition parseLeafNode :: "bytes \<Rightarrow> error + VerkleNode" where
  "parseLeafNode raw =
     (case SplitString raw of
        Inl err \<Rightarrow> Inl err
      | Inr (key, rest) \<Rightarrow>
          (case SplitString rest of
             Inl err \<Rightarrow> Inl err
           | Inr (val, _) \<Rightarrow> Inr (LeafNode key val)))"

definition parseHashedNode :: "bytes \<Rightarrow> error + VerkleNode" where
  "parseHashedNode raw =
     (case SplitString raw of
        Inl err \<Rightarrow> Inl err
      | Inr (h, _) \<Rightarrow> Inr (HashedNode (BytesToHash h)))"

text \<open>
  \<^verbatim>\<open>indicesFromBitlist\<close>: the outer loop ranges over the bytes with their positions, the
  inner loop over \<open>j = 0, \<dots>, 7\<close>; both append to \<^verbatim>\<open>indices\<close>. The indices are Go
  \<^verbatim>\<open>int\<close>s; \<open>i * 8 + j\<close> stays far below \<open>2 ^ 63\<close> for any slice that fits in memory.
\<close>

definition bit_loop :: "nat \<Rightarrow> byte \<Rightarrow> nat list \<Rightarrow> nat list" where
  "bit_loop i b indices =
     foldl (\<lambda>indices j.
              let mask = (push_bit j 1 :: byte)
              in if b AND mask = mask then indices @ [i * 8 + j] else indices)
       indices [0..<8]"

definition indicesFromBitlist :: "bytes \<Rightarrow> nat list" where
  "indicesFromBitlist bitlist =
     foldl (\<lambda>indices (i, b). if b AND 0xff = 0x00 then indices else bit_loop i b indices)
       [] (enumerate 0 bitlist)"

text \<open>
  A store \<^verbatim>\<open>n.children[index] = v\<close> panics in Go when \<open>index\<close> is not below the length
  of the slice.
\<close>

definition store_child ::
  "VerkleNode option list \<Rightarrow> nat \<Rightarrow> VerkleNode \<Rightarrow> error + VerkleNode option list" where
  "store_child cs index v =
     (if index < length cs then Inr (cs[index := Some v]) else Inl PanicIndexOutOfRange)"

fun createInternalNode_loop ::
  "nat list \<Rightarrow> bytes \<Rightarrow> VerkleNode option list \<Rightarrow> error + VerkleNode option list" where
  "createInternalNode_loop [] raw cs = Inr cs"
| "createInternalNode_loop (index # indices) raw cs =
     (case SplitList raw of
        Inl err \<Rightarrow> Inl err
      | Inr (el, rest) \<Rightarrow>
          (case CountValues el of
             Inl err \<Rightarrow> Inl err
           | Inr c \<Rightarrow>
               if c = 1 then
                 (case parseHashedNode el of
                    Inl err \<Rightarrow> Inl err
                  | Inr hashed \<Rightarrow>
                      (case store_child cs index hashed of
                         Inl err \<Rightarrow> Inl err
                       | Inr cs' \<Rightarrow> createInternalNode_loop indices rest cs'))
               else if c = 2 then
                 (case parseLeafNode el of
                    Inl err \<Rightarrow> Inl err
                  | Inr leaf \<Rightarrow>
                      (case store_child cs index leaf of
                         Inl err \<Rightarrow> Inl err
                       | Inr cs' \<Rightarrow> createInternalNode_loop indices rest cs'))
               else createInternalNode_loop indices rest cs))"

definition createInternalNode :: "bytes \<Rightarrow> bytes \<Rightarrow> TreeConfig \<Rightarrow> error + VerkleNode" where
  "createInternalNode bitlist raw tc =
     (case createInternalNode_loop (indicesFromBitlist bitlist) raw (children (newInternalNode 0 tc)) of
        Inl err \<Rightarrow> Inl err
      | Inr cs \<Rightarrow> Inr (InternalNode cs 0 None None tc))"

definition ParseNode :: "bytes \<Rightarrow> TreeConfig \<Rightarrow> error + VerkleNode" where
  "ParseNode serialized tc =
     (case SplitList serialized of
        Inl err \<Rightarrow> Inl err
      | Inr (elems, _) \<Rightarrow>
          (case CountValues elems of
             Inl err \<Rightarrow> Inl err
           | Inr c \<Rightarrow>
               if c = 1 then parseHashedNode elems
               else if c = 2 then
                 (case Split elems of
                    Inl err \<Rightarrow> Inl err
                  | Inr (kind, first, rest) \<Rightarrow>
                      if kind \<noteq> String then Inl ErrInvalidNodeEncoding
                      else if length first = 32 then
                        (case SplitString rest of
                           Inl err \<Rightarrow> Inl err
                         | Inr (val, _) \<Rightarrow> Inr (LeafNode first val))
                      else if length first = 128 then
                        (case SplitList rest of
                           Inl err \<Rightarrow> Inl err
                         | Inr (chs, _) \<Rightarrow> createInternalNode first chs tc)
                      else Inl ErrInvalidNodeEncoding)
               else Inl ErrInvalidNodeEncoding))"

section \<open>The RLP encoding of strings and lists\<close>

text \<open>
  The byte form that \<^verbatim>\<open>rlp.EncodeToBytes\<close> (go-ethereum) gives to a byte string and
  to a list: a single byte below \<open>0x80\<close> stands for itself; otherwise a header carries
  the length of the content, in one byte when the length is below 56 and else as the
  shortest big-endian number, preceded by the count of its bytes.
\<close>

datatype item = Str bytes | Lst "item list"

function be_bytes :: "nat \<Rightarrow> bytes" where
  "be_bytes n = (if n = 0 then [] else be_bytes (n div 256) @ [of_nat (n mod 256)])"
  by pat_completeness auto
termination
  by (relation "measure (\<lambda>n. n)") auto

declare be_bytes.simps [simp del]

definition header :: "byte \<Rightarrow> nat \<Rightarrow> bytes" where
  "header off len =
     (if len < 56 then [off + of_nat len]
      else (off + 55 + of_nat (length (be_bytes len))) # be_bytes len)"

fun encode :: "item \<Rightarrow> bytes" where
  "encode (Str s) =
     (if length s = 1 \<and> s ! 0 < 0x80 then s else header 0x80 (length s) @ s)"
| "encode (Lst xs) = header 0xC0 (length (concat (map encode xs))) @ concat (map encode xs)"

text \<open>
  The content of an encoded item (what \<^verbatim>\<open>Split\<close> returns as \<^verbatim>\<open>content\<close>) and the kind
  the reader reports for it.
\<close>

fun payload :: "item \<Rightarrow> bytes" where
  "payload (Str s) = s"
| "payload (Lst xs) = concat (map encode xs)"

fun kind_of :: "item \<Rightarrow> Kind" where
  "kind_of (Str s) = (if length s = 1 \<and> s ! 0 < 0x80 then Byte else String)"
| "kind_of (Lst xs) = List"

section \<open>The reader on encoded items\<close>

lemma be_uint_append: "be_uint (xs @ [b]) = be_uint xs * 256 + unat b"
  by (simp add: be_uint_def)

lemma be_uint_be_bytes: "be_uint (be_bytes n) = n"
proof (induction n rule: be_bytes.induct)
  case (1 n)
  show ?case
  proof (cases "n = 0")
    case True
    then show ?thesis by (simp add: be_bytes.simps be_uint_def)
  next
    case False
    have "unat (of_nat (n mod 256) :: byte) = n mod 256"
      by (simp add: unat_of_nat)
    with False 1 show ?thesis
      by (subst be_bytes.simps) (simp add: be_uint_append)
  qed
qed

lemma be_bytes_small: "0 < n \<Longrightarrow> n < 256 \<Longrightarrow> be_bytes n = [of_nat n]"
  by (subst be_bytes.simps, subst be_bytes.simps) simp

lemma unat_of_nat_byte: "n < 256 \<Longrightarrow> unat (of_nat n :: byte) = n"
  by (simp add: unat_of_nat)

lemma of_nat_byte_neq0: "0 < n \<Longrightarrow> n < 256 \<Longrightarrow> (of_nat n :: byte) \<noteq> 0"
  using unat_of_nat_byte[of n] by auto

lemma be_bytes_hd: "0 < n \<Longrightarrow> be_bytes n \<noteq> [] \<and> be_bytes n ! 0 \<noteq> 0"
proof (induction n rule: be_bytes.induct)
  case (1 n)
  show ?case
  proof (cases "n div 256 = 0")
    case True
    with 1(2) have "n < 256" "0 < n" by (auto simp: div_eq_0_iff)
    then show ?thesis
      by (simp add: be_bytes_small of_nat_byte_neq0)
  next
    case False
    with 1 have "be_bytes (n div 256) \<noteq> [] \<and> be_bytes (n div 256) ! 0 \<noteq> 0" by simp
    then show ?thesis using 1(2)
      by (subst be_bytes.simps, simp add: nth_append)+
  qed
qed

lemma length_be_bytes: "n < 256 ^ k \<Longrightarrow> length (be_bytes n) \<le> k"
proof (induction n arbitrary: k rule: be_bytes.induct)
  case (1 n)
  show ?case
  proof (cases "n = 0")
    case True
    then show ?thesis by (simp add: be_bytes.simps)
  next
    case False
    with 1(2) obtain k' where k: "k = Suc k'" by (cases k) auto
    with 1(2) have "n div 256 < 256 ^ k'"
      by (simp add: less_mult_imp_div_less mult.commute)
    with 1(1)[OF False] have "length (be_bytes (n div 256)) \<le> k'" by simp
    with False k show ?thesis by (subst be_bytes.simps) simp
  qed
qed

lemma be_bytes_nonempty: "0 < n \<Longrightarrow> 0 < length (be_bytes n)"
  using be_bytes_hd[of n] by simp

lemma readSize_be_bytes:
  assumes "56 \<le> n" and "n < 2 ^ 64"
  shows "readSize (be_bytes n @ rest) (length (be_bytes n)) = Inr n"
proof -
  have "n < 256 ^ 8" using assms(2) by simp
  then have l8: "length (be_bytes n) \<le> 8" by (rule length_be_bytes)
  have pos: "0 < n" using assms(1) by simp
  have l1: "1 \<le> length (be_bytes n)" using be_bytes_nonempty[OF pos] by linarith
  have hd: "(be_bytes n @ rest) ! 0 \<noteq> 0"
    using be_bytes_hd[OF pos] by (simp add: nth_append)
  show ?thesis
    using l1 l8 hd assms(1) by (simp add: readSize_def be_uint_be_bytes)
qed

lemma unat_byte_add:
  "unat a + n < 256 \<Longrightarrow> unat (a + of_nat n :: byte) = unat a + n"
proof -
  assume h: "unat a + n < 256"
  then have "unat (of_nat n :: byte) = n" by (simp add: unat_of_nat_byte)
  with h have "unat a + unat (of_nat n :: byte) < 2 ^ LENGTH(8)" by simp
  then have "unat (a + of_nat n) = unat a + unat (of_nat n :: byte)"
    by (simp only: unat_add_lem)
  with \<open>unat (of_nat n :: byte) = n\<close> show ?thesis by simp
qed

lemma readKind_short:
  assumes len: "length s < 56"
    and off: "off = 0x80 \<or> off = 0xC0"
    and canon: "off = 0x80 \<Longrightarrow> length s = 1 \<Longrightarrow> \<not> s ! 0 < 0x80"
  shows "readKind ((off + of_nat (length s)) # s @ rest) =
           Inr (if off = 0x80 then String else List, 1, length s)"
proof -
  let ?b = "off + of_nat (length s) :: byte"
  from off show ?thesis
  proof
    assume o: "off = 0x80"
    have u: "unat ?b = 128 + length s"
      using len unat_byte_add[of off "length s"] o by simp
    have c1: "\<not> ?b < 0x80" using u by (simp add: word_less_nat_alt)
    have c2: "?b < 0xB8" using u len by (simp add: word_less_nat_alt)
    have sub: "unat (?b - 0x80) = length s"
      using o len by (simp add: unat_of_nat_byte)
    have can: "\<not> (length s = 1 \<and> (s @ rest) ! 0 < 0x80)"
      using canon[OF o] by (auto simp: nth_append)
    show ?thesis
      using c1 c2 sub can o by (simp add: readKind_def Let_def)
  next
    assume o: "off = 0xC0"
    have u: "unat ?b = 192 + length s"
      using len unat_byte_add[of off "length s"] o by simp
    have c1: "\<not> ?b < 0x80" using u by (simp add: word_less_nat_alt)
    have c2: "\<not> ?b < 0xB8" using u by (simp add: word_less_nat_alt)
    have c3: "\<not> ?b < 0xC0" using u by (simp add: word_less_nat_alt)
    have c4: "?b < 0xF8" using u len by (simp add: word_less_nat_alt)
    have sub: "unat (?b - 0xC0) = length s"
      using o len by (simp add: unat_of_nat_byte)
    show ?thesis
      using c1 c2 c3 c4 sub o by (simp add: readKind_def Let_def)
  qed
qed

lemma readKind_long:
  assumes len: "56 \<le> length s" and lt: "length s < 2 ^ 64"
    and off: "off = 0x80 \<or> off = 0xC0"
  shows "readKind ((off + 55 + of_nat (length (be_bytes (length s)))) # be_bytes (length s) @ s @ rest) =
           Inr (if off = 0x80 then String else List, Suc (length (be_bytes (length s))), length s)"
proof -
  let ?L = "length (be_bytes (length s))"
  let ?b = "off + 55 + of_nat ?L :: byte"
  have "length s < 256 ^ 8" using lt by simp
  then have l8: "?L \<le> 8" by (rule length_be_bytes)
  have l1: "1 \<le> ?L" using be_bytes_nonempty[of "length s"] len by linarith
  have rs: "readSize (be_bytes (length s) @ s @ rest) ?L = Inr (length s)"
    using readSize_be_bytes[OF len lt] by simp
  from off show ?thesis
  proof
    assume o: "off = 0x80"
    have u: "unat ?b = 183 + ?L"
      using l8 unat_byte_add[of "off + 55" ?L] o by simp
    have c1: "\<not> ?b < 0x80" using u by (simp add: word_less_nat_alt)
    have c2: "\<not> ?b < 0xB8" using u l1 by (auto simp: word_less_nat_alt)
    have c3: "?b < 0xC0" using u l8 by (simp add: word_less_nat_alt)
    have sub: "unat (?b - 0xB7) = ?L"
      using o l8 by (simp add: unat_of_nat_byte)
    show ?thesis
      using c1 c2 c3 sub rs o by (simp add: readKind_def Let_def)
  next
    assume o: "off = 0xC0"
    have u: "unat ?b = 247 + ?L"
      using l8 unat_byte_add[of "off + 55" ?L] o by simp
    have c1: "\<not> ?b < 0x80" using u by (simp add: word_less_nat_alt)
    have c2: "\<not> ?b < 0xB8" using u by (simp add: word_less_nat_alt)
    have c3: "\<not> ?b < 0xC0" using u by (simp add: word_less_nat_alt)
    have c4: "\<not> ?b < 0xF8" using u l1 by (auto simp: word_less_nat_alt)
    have sub: "unat (?b - 0xF7) = ?L"
      using o l8 by (simp add: unat_of_nat_byte)
    show ?thesis
      using c1 c2 c3 c4 sub rs o by (simp add: readKind_def Let_def)
  qed
qed

lemma readKind_header:
  assumes lt: "length s < 2 ^ 64"
    and off: "off = 0x80 \<or> off = 0xC0"
    and canon: "off = 0x80 \<Longrightarrow> length s = 1 \<Longrightarrow> \<not> s ! 0 < 0x80"
  shows "readKind (header off (length s) @ s @ rest) =
           Inr (if off = 0x80 then String else List, length (header off (length s)), length s)"
proof (cases "length s < 56")
  case True
  then show ?thesis
    using readKind_short[OF True off canon, of rest] by (simp add: header_def)
next
  case False
  then have "56 \<le> length s" by simp
  from readKind_long[OF this lt off, of rest] False show ?thesis
    by (simp add: header_def)
qed

lemma readKind_encode:
  assumes "length (payload x) < 2 ^ 64"
  shows "readKind (encode x @ rest) =
           Inr (kind_of x, length (encode x) - length (payload x), length (payload x))"
proof (cases x)
  case (Str s)
  show ?thesis
  proof (cases "length s = 1 \<and> s ! 0 < 0x80")
    case True
    then obtain b where "s = [b]" by (cases s) auto
    with True Str show ?thesis by (simp add: readKind_def)
  next
    case False
    with readKind_header[of s "0x80" rest] assms Str show ?thesis by auto
  qed
next
  case (Lst xs)
  with readKind_header[of "concat (map encode xs)" "0xC0" rest] assms show ?thesis
    by simp
qed

lemma encode_split: "\<exists>h. encode x = h @ payload x"
  by (cases x) auto

lemma payload_le: "length (payload x) \<le> length (encode x)"
  using encode_split[of x] by (metis length_append le_add2)

lemma Split_encode:
  assumes "length (payload x) < 2 ^ 64"
  shows "Split (encode x @ rest) = Inr (kind_of x, payload x, rest)"
proof -
  obtain h where h: "encode x = h @ payload x" using encode_split by blast
  then have "length (encode x) - length (payload x) = length h" by simp
  with readKind_encode[OF assms, of rest] h show ?thesis
    by (simp add: Split_def)
qed

lemma encode_nonempty: "encode x \<noteq> []"
  by (cases x) (auto simp: header_def)

lemma CountValues_loop_Nil: "CountValues_loop [] i = Inr i"
  by (subst CountValues_loop.simps) simp

lemma CountValues_loop_step:
  assumes "readKind b = Inr (k, ts, cs)"
  shows "CountValues_loop b i = CountValues_loop (drop (ts + cs) b) (i + 1)"
proof -
  have "0 < length b" using readKind_progress(3)[OF assms] by simp
  with assms show ?thesis by (subst CountValues_loop.simps) simp
qed

lemma CountValues_loop_error:
  assumes "readKind b = Inl err" and "b \<noteq> []"
  shows "CountValues_loop b i = Inl err"
  using assms by (subst CountValues_loop.simps) simp

lemma CountValues_loop_encode:
  assumes "\<forall>x \<in> set xs. length (payload x) < 2 ^ 64"
  shows "CountValues_loop (concat (map encode xs)) i = Inr (i + length xs)"
  using assms
proof (induction xs arbitrary: i)
  case Nil
  then show ?case by (simp add: CountValues_loop_Nil)
next
  case (Cons x xs)
  have fit: "length (payload x) < 2 ^ 64" using Cons.prems by simp
  obtain h where h: "encode x = h @ payload x" using encode_split by blast
  have rk: "readKind (encode x @ concat (map encode xs)) =
      Inr (kind_of x, length h, length (payload x))"
    using readKind_encode[OF fit, of "concat (map encode xs)"] h by simp
  have "CountValues_loop (encode x @ concat (map encode xs)) i =
      CountValues_loop (concat (map encode xs)) (i + 1)"
    using CountValues_loop_step[OF rk, of i] h by simp
  also have "\<dots> = Inr (i + 1 + length xs)"
    using Cons.IH[of "i + 1"] Cons.prems by simp
  finally show ?case by simp
qed

lemma CountValues_encode:
  "\<forall>x \<in> set xs. length (payload x) < 2 ^ 64 \<Longrightarrow>
     CountValues (concat (map encode xs)) = Inr (length xs)"
  by (simp add: CountValues_def CountValues_loop_encode)

lemma SplitString_encode_Str:
  "length s < 2 ^ 64 \<Longrightarrow> SplitString (encode (Str s) @ rest) = Inr (s, rest)"
  using Split_encode[of "Str s" rest] by (simp add: SplitString_def)

lemma SplitString_encode_Lst:
  "length (concat (map encode xs)) < 2 ^ 64 \<Longrightarrow>
     SplitString (encode (Lst xs) @ rest) = Inl ErrExpectedString"
  using Split_encode[of "Lst xs" rest] by (simp add: SplitString_def)

lemma SplitList_encode_Lst:
  "length (concat (map encode xs)) < 2 ^ 64 \<Longrightarrow>
     SplitList (encode (Lst xs) @ rest) = Inr (concat (map encode xs), rest)"
  using Split_encode[of "Lst xs" rest] by (simp add: SplitList_def)

lemma SplitList_encode_Str:
  "length s < 2 ^ 64 \<Longrightarrow> SplitList (encode (Str s) @ rest) = Inl ErrExpectedList"
  using Split_encode[of "Str s" rest] by (simp add: SplitList_def)

section \<open>Properties of the parser\<close>

subsection \<open>Hashes\<close>

lemma length_BytesToHash: "length (BytesToHash h) = 32"
  by (simp add: BytesToHash_def SetBytes_def copy_into_def HashLength_def Let_def)

lemma BytesToHash_short:
  "length h \<le> 32 \<Longrightarrow> BytesToHash h = replicate (32 - length h) 0 @ h"
  by (simp add: BytesToHash_def SetBytes_def copy_into_def HashLength_def Let_def)

lemma BytesToHash_long:
  "32 < length h \<Longrightarrow> BytesToHash h = drop (length h - 32) h"
  by (simp add: BytesToHash_def SetBytes_def copy_into_def HashLength_def Let_def)


subsection \<open>Items whose encoding the reader can measure\<close>

text \<open>
  The reader holds every size in 64 bits, so the statements about encoded items are for
  items whose encoding is shorter than \<open>2 ^ 64\<close> bytes, as every Go slice is.
\<close>

definition encodable :: "item \<Rightarrow> bool" where
  "encodable x = (length (encode x) < 2 ^ 64)"

lemma encodable_payload: "encodable x \<Longrightarrow> length (payload x) < 2 ^ 64"
  using payload_le[of x] by (simp add: encodable_def)

lemma length_concat_member:
  "x \<in> set xs \<Longrightarrow> length (f x) \<le> length (concat (map f xs))"
  by (induction xs) auto

lemma encodable_member:
  assumes "encodable (Lst xs)" and "x \<in> set xs"
  shows "encodable x"
proof -
  have "length (encode x) \<le> length (payload (Lst xs))"
    using length_concat_member[OF assms(2), of encode] by simp
  also have "\<dots> < 2 ^ 64" using encodable_payload[OF assms(1)] .
  finally show ?thesis by (simp add: encodable_def)
qed

lemma encodable_members_payload:
  "encodable (Lst xs) \<Longrightarrow> \<forall>x \<in> set xs. length (payload x) < 2 ^ 64"
  using encodable_member encodable_payload by blast

lemma SplitList_Lst:
  "encodable (Lst xs) \<Longrightarrow> SplitList (encode (Lst xs) @ rest) = Inr (concat (map encode xs), rest)"
  using SplitList_encode_Lst[of xs rest] encodable_payload[of "Lst xs"] by simp

lemma CountValues_Lst:
  "encodable (Lst xs) \<Longrightarrow> CountValues (concat (map encode xs)) = Inr (length xs)"
  using CountValues_encode encodable_members_payload by blast

lemma SplitString_Str:
  "encodable (Str s) \<Longrightarrow> SplitString (encode (Str s) @ rest) = Inr (s, rest)"
  using SplitString_encode_Str[of s rest] encodable_payload[of "Str s"] by simp

lemma parseHashedNode_encode:
  assumes "encodable (Str h)"
  shows "parseHashedNode (encode (Str h) @ rest) = Inr (HashedNode (BytesToHash h))"
  using SplitString_Str[OF assms] by (simp add: parseHashedNode_def)

lemma parseLeafNode_encode:
  assumes "encodable (Str k)" and "encodable (Str v)"
  shows "parseLeafNode (encode (Str k) @ encode (Str v) @ rest) = Inr (LeafNode k v)"
  using SplitString_Str[OF assms(1)] SplitString_Str[OF assms(2)]
  by (simp add: parseLeafNode_def)

lemma parseLeafNode_encode_list:
  assumes "encodable (Str k)" and "encodable (Lst ys)"
  shows "parseLeafNode (encode (Str k) @ encode (Lst ys) @ rest) = Inl ErrExpectedString"
proof -
  have "SplitString (encode (Lst ys) @ rest) = Inl ErrExpectedString"
    using SplitString_encode_Lst[of ys rest] encodable_payload[OF assms(2)] by simp
  with SplitString_Str[OF assms(1)] show ?thesis
    by (simp add: parseLeafNode_def)
qed

subsection \<open>One round of the loop of \<^verbatim>\<open>createInternalNode\<close>, and \<^verbatim>\<open>ParseNode\<close> on encoded lists\<close>

lemma loop_step_hashed:
  assumes "encodable (Lst [Str h])"
  shows "createInternalNode_loop (index # indices) (encode (Lst [Str h]) @ rest) cs =
           (case store_child cs index (HashedNode (BytesToHash h)) of
              Inl err \<Rightarrow> Inl err
            | Inr cs' \<Rightarrow> createInternalNode_loop indices rest cs')"
proof -
  have e: "encodable (Str h)" using encodable_member[OF assms] by simp
  have "parseHashedNode (encode (Str h)) = Inr (HashedNode (BytesToHash h))"
    using parseHashedNode_encode[OF e, of "[]"] by simp
  then show ?thesis
    using SplitList_Lst[OF assms, of rest] CountValues_Lst[OF assms]
    by simp
qed

lemma loop_step_leaf:
  assumes "encodable (Lst [Str k, Str v])"
  shows "createInternalNode_loop (index # indices) (encode (Lst [Str k, Str v]) @ rest) cs =
           (case store_child cs index (LeafNode k v) of
              Inl err \<Rightarrow> Inl err
            | Inr cs' \<Rightarrow> createInternalNode_loop indices rest cs')"
proof -
  have e: "encodable (Str k)" "encodable (Str v)"
    using encodable_member[OF assms] by simp_all
  have "parseLeafNode (encode (Str k) @ encode (Str v)) = Inr (LeafNode k v)"
    using parseLeafNode_encode[OF e, of "[]"] by simp
  then show ?thesis
    using SplitList_Lst[OF assms, of rest] CountValues_Lst[OF assms]
    by simp
qed

lemma loop_step_nested:
  assumes "encodable (Lst [Str b, Lst ys])"
  shows "createInternalNode_loop (index # indices) (encode (Lst [Str b, Lst ys]) @ rest) cs =
           Inl ErrExpectedString"
proof -
  have e: "encodable (Str b)" "encodable (Lst ys)"
    using encodable_member[OF assms] by simp_all
  have "parseLeafNode (encode (Str b) @ encode (Lst ys)) = Inl ErrExpectedString"
    using parseLeafNode_encode_list[OF e, of "[]"] by simp
  then show ?thesis
    using SplitList_Lst[OF assms, of rest] CountValues_Lst[OF assms]
    by simp
qed

lemma loop_step_skip:
  assumes "encodable (Lst xs)" and "length xs \<noteq> 1" and "length xs \<noteq> 2"
  shows "createInternalNode_loop (index # indices) (encode (Lst xs) @ rest) cs =
           createInternalNode_loop indices rest cs"
  using SplitList_Lst[OF assms(1), of rest] CountValues_Lst[OF assms(1)] assms(2,3)
  by simp

lemma ParseNode_encode_hashed:
  assumes "encodable (Lst [Str h])"
  shows "ParseNode (encode (Lst [Str h])) tc = Inr (HashedNode (BytesToHash h))"
proof -
  have e: "encodable (Str h)" using encodable_member[OF assms] by simp
  have "parseHashedNode (encode (Str h)) = Inr (HashedNode (BytesToHash h))"
    using parseHashedNode_encode[OF e, of "[]"] by simp
  then show ?thesis
    using SplitList_Lst[OF assms, of "[]"] CountValues_Lst[OF assms]
    by (simp add: ParseNode_def)
qed

lemma Split_Str_long:
  assumes "encodable (Str s)" and "length s \<noteq> 1"
  shows "Split (encode (Str s) @ rest) = Inr (String, s, rest)"
  using Split_encode[of "Str s" rest] encodable_payload[OF assms(1)] assms(2) by simp

lemma ParseNode_encode_leaf:
  assumes "encodable (Lst [Str k, Str v])" and "length k = 32"
  shows "ParseNode (encode (Lst [Str k, Str v])) tc = Inr (LeafNode k v)"
proof -
  have e: "encodable (Str k)" "encodable (Str v)"
    using encodable_member[OF assms(1)] by simp_all
  have s1: "Split (encode (Str k) @ encode (Str v)) = Inr (String, k, encode (Str v))"
    using Split_Str_long[OF e(1), of "encode (Str v)"] assms(2) by simp
  have s2: "SplitString (encode (Str v)) = Inr (v, [])"
    using SplitString_Str[OF e(2), of "[]"] by simp
  show ?thesis
    using SplitList_Lst[OF assms(1), of "[]"] CountValues_Lst[OF assms(1)] s1 s2 assms(2)
    by (simp add: ParseNode_def)
qed

lemma ParseNode_encode_internal:
  assumes "encodable (Lst [Str b, Lst ys])" and "length b = 128"
  shows "ParseNode (encode (Lst [Str b, Lst ys])) tc =
           createInternalNode b (concat (map encode ys)) tc"
proof -
  have e: "encodable (Str b)" "encodable (Lst ys)"
    using encodable_member[OF assms(1)] by simp_all
  have s1: "Split (encode (Str b) @ encode (Lst ys)) = Inr (String, b, encode (Lst ys))"
    using Split_Str_long[OF e(1), of "encode (Lst ys)"] assms(2) by simp
  have s2: "SplitList (encode (Lst ys)) = Inr (concat (map encode ys), [])"
    using SplitList_Lst[OF e(2), of "[]"] by simp
  show ?thesis
    using SplitList_Lst[OF assms(1), of "[]"] CountValues_Lst[OF assms(1)] s1 s2 assms(2)
    by (simp add: ParseNode_def)
qed

subsection \<open>The indices of a bitmap\<close>

lemma mask_nonzero: "j < 8 \<Longrightarrow> (push_bit j 1 :: byte) \<noteq> 0"
  by simp

lemma mask_test:
  fixes b :: byte
  assumes "j < 8"
  shows "(b AND push_bit j 1 = push_bit j 1) \<longleftrightarrow> bit b j"
proof
  assume "b AND push_bit j 1 = push_bit j 1"
  then have "b AND push_bit j 1 \<noteq> 0" using mask_nonzero[OF assms] by simp
  then show "bit b j" by (simp add: bit_iff_and_push_bit_not_eq_0)
next
  assume "bit b j"
  then show "b AND push_bit j 1 = push_bit j 1"
    by (metis bit_word_iff_drop_bit_and mask_1 push_bit_mask_eq
    slice_eq_mask take_bit_eq_mask)
qed

lemma foldl_append_filter:
  "foldl (\<lambda>acc j. if P j then acc @ [f j] else acc) acc js = acc @ map f (filter P js)"
  by (induction js arbitrary: acc) auto

lemma bit_loop_eq:
  "bit_loop i b acc = acc @ map (\<lambda>j. i * 8 + j) (filter (bit b) [0..<8])"
proof -
  have "bit_loop i b acc =
      foldl (\<lambda>acc j. if bit b j then acc @ [i * 8 + j] else acc) acc [0..<8]"
    unfolding bit_loop_def Let_def
    by (rule foldl_cong) (simp_all only: mask_test atLeastLessThan_iff set_upt if_True refl)
  then show ?thesis by (simp only: foldl_append_filter)
qed

lemma byte_zero_no_bits: "filter (bit (0::byte)) js = []"
  by (induction js) auto

definition byte_indices :: "nat \<Rightarrow> byte \<Rightarrow> nat list" where
  "byte_indices i b = map (\<lambda>j. i * 8 + j) (filter (bit b) [0..<8])"

lemma indices_step:
  "(if b AND 0xff = 0x00 then acc else bit_loop i b acc) = acc @ byte_indices i b"
proof -
  have "(0xff :: byte) = - 1" by simp
  then have "b AND 0xff = b" by (simp only: and.right_neutral)
  then show ?thesis
    by (auto simp: bit_loop_eq byte_indices_def byte_zero_no_bits)
qed

lemma foldl_append_concat:
  "foldl (\<lambda>acc (i, b). acc @ g i b) acc ibs = acc @ concat (map (\<lambda>(i, b). g i b) ibs)"
  by (induction ibs arbitrary: acc) auto

lemma foldl_indices:
  "foldl (\<lambda>indices (i, b). if b AND 0xff = 0x00 then indices else bit_loop i b indices) acc ibs =
     acc @ concat (map (\<lambda>(i, b). byte_indices i b) ibs)"
  by (simp only: indices_step foldl_append_concat)

lemma indicesFromBitlist_concat:
  "indicesFromBitlist bitlist = concat (map (\<lambda>(i, b). byte_indices i b) (enumerate 0 bitlist))"
  by (simp add: indicesFromBitlist_def foldl_indices)

lemma byte_indices_filter:
  "byte_indices i b = filter (\<lambda>m. bit b (m mod 8)) [i * 8..<i * 8 + 8]"
proof -
  have u: "[i * 8..<i * 8 + 8] = map (\<lambda>j. i * 8 + j) [0..<8]"
    using map_add_upt[of "i * 8" 8] by (simp add: add.commute)
  have "filter (bit b) [0..<8] = filter (\<lambda>j. bit b ((i * 8 + j) mod 8)) [0..<8]"
    by (rule filter_cong) auto
  then show ?thesis
    by (simp only: u byte_indices_def filter_map comp_def)
qed

lemma indicesFromBitlist_filter:
  "indicesFromBitlist bitlist =
     filter (\<lambda>m. bit (bitlist ! (m div 8)) (m mod 8)) [0..<8 * length bitlist]"
proof (induction bitlist rule: rev_induct)
  case Nil
  then show ?case by (simp add: indicesFromBitlist_concat)
next
  case (snoc b bs)
  let ?n = "length bs"
  have split: "[0..<8 * length (bs @ [b])] = [0..<8 * ?n] @ [?n * 8..<?n * 8 + 8]"
    using upt_add_eq_append[of 0 "?n * 8" 8] by (simp add: mult.commute add.commute)
  have old: "filter (\<lambda>m. bit ((bs @ [b]) ! (m div 8)) (m mod 8)) [0..<8 * ?n] =
      filter (\<lambda>m. bit (bs ! (m div 8)) (m mod 8)) [0..<8 * ?n]"
    by (rule filter_cong) (auto simp: nth_append)
  have new: "filter (\<lambda>m. bit ((bs @ [b]) ! (m div 8)) (m mod 8)) [?n * 8..<?n * 8 + 8] =
      filter (\<lambda>m. bit b (m mod 8)) [?n * 8..<?n * 8 + 8]"
    by (rule filter_cong) (auto simp: nth_append)
  have "indicesFromBitlist (bs @ [b]) = indicesFromBitlist bs @ byte_indices ?n b"
    by (simp add: indicesFromBitlist_concat enumerate_append_eq)
  then show ?case
    by (simp only: split filter_append old new snoc.IH byte_indices_filter)
qed

lemma indicesFromBitlist_sorted: "sorted_wrt (<) (indicesFromBitlist bitlist)"
  by (simp add: indicesFromBitlist_filter sorted_wrt_filter)

lemma indicesFromBitlist_distinct: "distinct (indicesFromBitlist bitlist)"
  by (simp add: indicesFromBitlist_filter)

lemma indicesFromBitlist_set:
  "set (indicesFromBitlist bitlist) =
     {8 * i + j | i j. i < length bitlist \<and> j < 8 \<and> bit (bitlist ! i) j}"
proof -
  have "\<And>m. m < 8 * length bitlist \<and> bit (bitlist ! (m div 8)) (m mod 8) \<longleftrightarrow>
      (\<exists>i j. m = 8 * i + j \<and> i < length bitlist \<and> j < 8 \<and> bit (bitlist ! i) j)"
  proof
    fix m
    assume "m < 8 * length bitlist \<and> bit (bitlist ! (m div 8)) (m mod 8)"
    then have "m = 8 * (m div 8) + m mod 8 \<and> m div 8 < length bitlist \<and> m mod 8 < 8 \<and>
        bit (bitlist ! (m div 8)) (m mod 8)"
      by auto
    then show "\<exists>i j. m = 8 * i + j \<and> i < length bitlist \<and> j < 8 \<and> bit (bitlist ! i) j"
      by blast
  next
    fix m
    assume "\<exists>i j. m = 8 * i + j \<and> i < length bitlist \<and> j < 8 \<and> bit (bitlist ! i) j"
    then show "m < 8 * length bitlist \<and> bit (bitlist ! (m div 8)) (m mod 8)"
      by auto
  qed
  then show ?thesis
    by (auto simp: indicesFromBitlist_filter)
qed

lemma indicesFromBitlist_bound:
  "i \<in> set (indicesFromBitlist bitlist) \<Longrightarrow> i < 8 * length bitlist"
  by (simp add: indicesFromBitlist_filter)

subsection \<open>The whole loop on a list of encoded children\<close>

text \<open>
  What one round of the loop does with an encoded child, by the shape of the child:
  \<open>stored_child\<close> is the node it stores (none when it stores nothing),
  \<open>skipped_child\<close> holds for the lists that fall through the \<^verbatim>\<open>switch\<close> (a count of
  values other than 1 and 2), and \<open>accepted_child\<close> for the children that raise no error.
\<close>

fun stored_child :: "item \<Rightarrow> VerkleNode option" where
  "stored_child (Lst [Str h]) = Some (HashedNode (BytesToHash h))"
| "stored_child (Lst [Str k, Str v]) = Some (LeafNode k v)"
| "stored_child _ = None"

fun skipped_child :: "item \<Rightarrow> bool" where
  "skipped_child (Lst xs) = (length xs \<noteq> 1 \<and> length xs \<noteq> 2)"
| "skipped_child (Str s) = False"

definition accepted_child :: "item \<Rightarrow> bool" where
  "accepted_child x = (skipped_child x \<or> stored_child x \<noteq> None)"

fun put_child :: "VerkleNode option list \<Rightarrow> nat \<times> item \<Rightarrow> VerkleNode option list" where
  "put_child cs (i, x) = (case stored_child x of None \<Rightarrow> cs | Some n \<Rightarrow> cs[i := Some n])"

lemma length_put_child [simp]: "length (put_child cs ix) = length cs"
  by (cases ix) (simp split: option.splits)

lemma put_child_other: "i \<noteq> fst ix \<Longrightarrow> put_child cs ix ! i = cs ! i"
  by (cases ix) (simp split: option.splits)

lemma put_child_same:
  "fst ix < length cs \<Longrightarrow>
     put_child cs ix ! fst ix =
       (case stored_child (snd ix) of None \<Rightarrow> cs ! fst ix | Some n \<Rightarrow> Some n)"
  by (cases ix) (simp split: option.splits)

lemma accepted_child_cases:
  assumes "accepted_child x"
  obtains (hashed) h where "x = Lst [Str h]"
    | (leaf) k v where "x = Lst [Str k, Str v]"
    | (skipped) xs where "x = Lst xs" and "length xs \<noteq> 1" and "length xs \<noteq> 2"
  using assms unfolding accepted_child_def
  by (induction x rule: stored_child.induct) auto

lemma stored_skipped: "skipped_child x \<Longrightarrow> stored_child x = None"
  by (induction x rule: stored_child.induct) auto

lemma length_foldl_put_child [simp]: "length (foldl put_child cs ixs) = length cs"
  by (induction ixs arbitrary: cs) auto

lemma loop_encode:
  assumes "length indices \<le> length items"
    and "\<forall>x \<in> set items. accepted_child x \<and> encodable x"
    and "\<forall>i \<in> set indices. i < length cs"
  shows "createInternalNode_loop indices (concat (map encode items) @ rest) cs =
           Inr (foldl put_child cs (zip indices items))"
  using assms
proof (induction indices arbitrary: items cs)
  case Nil
  then show ?case by simp
next
  case (Cons index indices)
  from Cons.prems(1) obtain x items' where items: "items = x # items'"
    by (cases items) auto
  have acc: "accepted_child x" and enc: "encodable x"
    using Cons.prems(2) items by simp_all
  have idx: "index < length cs" using Cons.prems(3) by simp
  have raw: "concat (map encode items) @ rest = encode x @ (concat (map encode items') @ rest)"
    by (simp add: items)
  have IH: "\<And>cs'. length cs' = length cs \<Longrightarrow>
      createInternalNode_loop indices (concat (map encode items') @ rest) cs' =
        Inr (foldl put_child cs' (zip indices items'))"
    using Cons.IH[of items'] Cons.prems items by simp
  let ?tail = "concat (map encode items') @ rest"
  from acc show ?case
  proof (cases rule: accepted_child_cases)
    case (hashed h)
    have e: "encodable (Lst [Str h])" using enc hashed by simp
    have "createInternalNode_loop (index # indices) (encode x @ ?tail) cs =
        createInternalNode_loop indices ?tail (cs[index := Some (HashedNode (BytesToHash h))])"
      using loop_step_hashed[OF e, of index indices ?tail cs] idx hashed
      by (simp add: store_child_def)
    also have "\<dots> = Inr (foldl put_child (put_child cs (index, x)) (zip indices items'))"
      using IH[of "cs[index := Some (HashedNode (BytesToHash h))]"] hashed by simp
    finally show ?thesis by (simp add: raw items)
  next
    case (leaf k v)
    have e: "encodable (Lst [Str k, Str v])" using enc leaf by simp
    have "createInternalNode_loop (index # indices) (encode x @ ?tail) cs =
        createInternalNode_loop indices ?tail (cs[index := Some (LeafNode k v)])"
      using loop_step_leaf[OF e, of index indices ?tail cs] idx leaf
      by (simp add: store_child_def)
    also have "\<dots> = Inr (foldl put_child (put_child cs (index, x)) (zip indices items'))"
      using IH[of "cs[index := Some (LeafNode k v)]"] leaf by simp
    finally show ?thesis by (simp add: raw items)
  next
    case (skipped xs)
    have e: "encodable (Lst xs)" using enc skipped by simp
    have st: "stored_child x = None" using skipped by (simp add: stored_skipped)
    have "createInternalNode_loop (index # indices) (encode x @ ?tail) cs =
        createInternalNode_loop indices ?tail cs"
      using loop_step_skip[OF e skipped(2,3), of index indices ?tail cs] skipped(1)
      by simp
    also have "\<dots> = Inr (foldl put_child (put_child cs (index, x)) (zip indices items'))"
      using IH[of cs] st by simp
    finally show ?thesis by (simp add: raw items)
  qed
qed

lemma foldl_put_child_other:
  "i \<notin> set (map fst ixs) \<Longrightarrow> foldl put_child cs ixs ! i = cs ! i"
  by (induction ixs arbitrary: cs) (auto simp: put_child_other)

lemma foldl_put_child_nth:
  assumes "distinct (map fst ixs)" and "k < length ixs" and "fst (ixs ! k) < length cs"
  shows "foldl put_child cs ixs ! fst (ixs ! k) =
           (case stored_child (snd (ixs ! k)) of None \<Rightarrow> cs ! fst (ixs ! k) | Some n \<Rightarrow> Some n)"
  using assms
proof (induction ixs arbitrary: cs k)
  case Nil
  then show ?case by simp
next
  case (Cons ix ixs)
  show ?case
  proof (cases k)
    case 0
    have "fst ix \<notin> set (map fst ixs)" using Cons.prems(1) by simp
    then have "foldl put_child (put_child cs ix) ixs ! fst ix = put_child cs ix ! fst ix"
      by (rule foldl_put_child_other)
    with 0 Cons.prems(3) show ?thesis
      by (simp add: put_child_same split: option.splits)
  next
    case (Suc k')
    have ne: "fst (ixs ! k') \<noteq> fst ix"
      using Cons.prems(1,2) Suc by (metis Suc_less_eq distinct.simps(2) length_Cons list.simps(9) nth_map nth_mem length_map)
    have len: "fst (ixs ! k') < length (put_child cs ix)"
      using Cons.prems(3) Suc by simp
    have "foldl put_child (put_child cs ix) ixs ! fst (ixs ! k') =
        (case stored_child (snd (ixs ! k')) of None \<Rightarrow> put_child cs ix ! fst (ixs ! k')
         | Some n \<Rightarrow> Some n)"
      using Cons.IH[of k' "put_child cs ix"] Cons.prems(1,2) Suc len by simp
    moreover have "put_child cs ix ! fst (ixs ! k') = cs ! fst (ixs ! k')"
      using ne by (simp add: put_child_other)
    ultimately show ?thesis using Suc by (simp split: option.splits)
  qed
qed

section \<open>Serialization\<close>

text \<open>
  Modelled from the spec: \<^verbatim>\<open>Serialize\<close> is a method of the node types of \<^verbatim>\<open>tree.go\<close>,
  which is not among the sources. The spec gives the three shapes: a hashed node is the
  list of its hash; a leaf is the list of its key and its value; an internal node is the
  list of a bitmap of \<open>NodeChildren / 8\<close> bytes, whose bit \<open>i\<close> is 1 iff slot \<open>i\<close> is
  occupied, and of the list of the encoded children, as many as there are set bits, in
  increasing slot order. Bit \<open>i\<close> of the bitmap is bit \<open>i mod 8\<close>, counted from the least
  significant, of byte \<open>i div 8\<close>: the order in which \<^verbatim>\<open>indicesFromBitlist\<close> reads it.
  \<open>plain_child\<close> holds for the nodes that the loop of \<^verbatim>\<open>createInternalNode\<close> rebuilds as
  they were: leaves, and hashed nodes with a hash of 32 bytes.
\<close>

definition bitlist_of :: "VerkleNode option list \<Rightarrow> bytes" where
  "bitlist_of cs =
     map (\<lambda>i. horner_sum of_bool 2 (map (\<lambda>j. cs ! (8 * i + j) \<noteq> None) [0..<8]))
       [0..<length cs div 8]"

fun node_item :: "VerkleNode \<Rightarrow> item" where
  "node_item (LeafNode k v) = Lst [Str k, Str v]"
| "node_item (HashedNode h) = Lst [Str h]"
| "node_item (InternalNode cs d c h tc) =
     Lst [Str (bitlist_of cs),
          Lst (concat (map (\<lambda>c. case c of None \<Rightarrow> [] | Some n \<Rightarrow> [node_item n]) cs))]"

definition Serialize :: "VerkleNode \<Rightarrow> bytes" where
  "Serialize n = encode (node_item n)"

fun plain_child :: "VerkleNode \<Rightarrow> bool" where
  "plain_child (LeafNode k v) = True"
| "plain_child (HashedNode h) = (length h = 32)"
| "plain_child (InternalNode cs d c h tc) = False"

lemma length_bitlist_of [simp]: "length (bitlist_of cs) = length cs div 8"
  by (simp add: bitlist_of_def)

lemma bit_bitlist_of:
  assumes "i < length cs div 8" and "j < 8"
  shows "bit (bitlist_of cs ! i) j \<longleftrightarrow> cs ! (8 * i + j) \<noteq> None"
  using assms by (simp add: bitlist_of_def bit_horner_sum_bit_iff)

lemma indices_bitlist_of:
  "indicesFromBitlist (bitlist_of cs) =
     filter (\<lambda>m. cs ! m \<noteq> None) [0..<8 * (length cs div 8)]"
proof -
  have "filter (\<lambda>m. bit (bitlist_of cs ! (m div 8)) (m mod 8)) [0..<8 * (length cs div 8)] =
      filter (\<lambda>m. cs ! m \<noteq> None) [0..<8 * (length cs div 8)]"
  proof (rule filter_cong[OF refl])
    fix m assume "m \<in> set [0..<8 * (length cs div 8)]"
    then have "m div 8 < length cs div 8" by auto
    then show "bit (bitlist_of cs ! (m div 8)) (m mod 8) = (cs ! m \<noteq> None)"
      by (simp add: bit_bitlist_of)
  qed
  then show ?thesis by (simp add: indicesFromBitlist_filter)
qed

lemma stored_plain: "plain_child n \<Longrightarrow> stored_child (node_item n) = Some n"
  by (cases n) (auto simp: BytesToHash_short)

lemma accepted_plain: "plain_child n \<Longrightarrow> accepted_child (node_item n)"
  by (simp add: accepted_child_def stored_plain)

lemma occupied_items:
  "concat (map (\<lambda>c. case c of None \<Rightarrow> [] | Some n \<Rightarrow> [f n]) cs) =
     map (\<lambda>m. f (the (cs ! m))) (filter (\<lambda>m. cs ! m \<noteq> None) [0..<length cs])"
proof (induction cs rule: rev_induct)
  case Nil
  then show ?case by simp
next
  case (snoc c cs)
  have "filter (\<lambda>m. (cs @ [c]) ! m \<noteq> None) [0..<length cs] =
      filter (\<lambda>m. cs ! m \<noteq> None) [0..<length cs]"
    by (rule filter_cong) (auto simp: nth_append)
  moreover have "map (\<lambda>m. f (the ((cs @ [c]) ! m))) (filter (\<lambda>m. cs ! m \<noteq> None) [0..<length cs]) =
      map (\<lambda>m. f (the (cs ! m))) (filter (\<lambda>m. cs ! m \<noteq> None) [0..<length cs])"
    by (rule map_cong) (auto simp: nth_append)
  ultimately show ?case
    using snoc.IH by (cases c) (simp_all add: nth_append)
qed

lemma ParseNode_internal_encode:
  assumes len: "length bitlist = 128"
    and wide: "1024 \<le> nodeWidth tc"
    and cnt: "length items = length (indicesFromBitlist bitlist)"
    and acc: "\<forall>x \<in> set items. accepted_child x"
    and enc: "encodable (Lst [Str bitlist, Lst items])"
  shows "ParseNode (encode (Lst [Str bitlist, Lst items])) tc =
           Inr (InternalNode
                  (foldl put_child (replicate (nodeWidth tc) None)
                     (zip (indicesFromBitlist bitlist) items))
                  0 None None tc)"
proof -
  have e: "encodable (Lst items)" using encodable_member[OF enc] by simp
  have each: "\<forall>x \<in> set items. accepted_child x \<and> encodable x"
    using acc encodable_member[OF e] by blast
  have bound: "\<forall>i \<in> set (indicesFromBitlist bitlist). i < length (replicate (nodeWidth tc) (None :: VerkleNode option))"
    using indicesFromBitlist_bound[of _ bitlist] len wide by fastforce
  have "createInternalNode_loop (indicesFromBitlist bitlist) (concat (map encode items) @ [])
      (replicate (nodeWidth tc) None) =
        Inr (foldl put_child (replicate (nodeWidth tc) None) (zip (indicesFromBitlist bitlist) items))"
    using cnt each bound by (intro loop_encode) simp_all
  then have "createInternalNode bitlist (concat (map encode items)) tc =
      Inr (InternalNode
             (foldl put_child (replicate (nodeWidth tc) None) (zip (indicesFromBitlist bitlist) items))
             0 None None tc)"
    by (simp add: createInternalNode_def newInternalNode_def)
  with ParseNode_encode_internal[OF enc len, of tc] show ?thesis
    by (simp only:)
qed

lemma zip_nth_fst:
  "length xs = length ys \<Longrightarrow> k < length ys \<Longrightarrow> fst (zip xs ys ! k) = xs ! k \<and> snd (zip xs ys ! k) = ys ! k"
  by simp

lemma indices_example: "indicesFromBitlist (5 # replicate 127 0) = [0, 2]"
  by code_simp

section \<open>Claims about the parser\<close>




text \<open>
  Claim C2, as the code has it. For a bitmap of 128 bytes, a configuration with at least
  1024 slots, and the encodings of as many leaves and hashed nodes as the bitmap has set
  bits, \<^verbatim>\<open>ParseNode\<close> returns an internal node whose slot at the \<open>k\<close>-th index of the bitmap
  holds the \<open>k\<close>-th child, and whose other slots are empty; the indices of a bitmap are
  exactly the numbers \<open>8 * i + j\<close> such that bit \<open>j\<close> of byte \<open>i\<close> is set, in strictly
  increasing order. The children are leaves and hashed nodes, the two variants that the
  loop of \<^verbatim>\<open>createInternalNode\<close> rebuilds.
\<close>

theorem createInternalNode_slots:
  assumes "length bitlist = 128"
    and "1024 \<le> nodeWidth tc"
    and "length ns = length (indicesFromBitlist bitlist)"
    and "\<forall>n \<in> set ns. plain_child n"
    and "encodable (Lst [Str bitlist, Lst (map node_item ns)])"
  shows "\<exists>cs. ParseNode (encode (Lst [Str bitlist, Lst (map node_item ns)])) tc =
                Inr (InternalNode cs 0 None None tc) \<and>
           length cs = nodeWidth tc \<and>
           (\<forall>k < length ns. cs ! (indicesFromBitlist bitlist ! k) = Some (ns ! k)) \<and>
           (\<forall>i < nodeWidth tc. i \<notin> set (indicesFromBitlist bitlist) \<longrightarrow> cs ! i = None) \<and>
           set (indicesFromBitlist bitlist) =
             {8 * i + j | i j. i < length bitlist \<and> j < 8 \<and> bit (bitlist ! i) j} \<and>
           sorted_wrt (<) (indicesFromBitlist bitlist)"
proof -
  let ?is = "indicesFromBitlist bitlist"
  let ?items = "map node_item ns"
  let ?cs = "foldl put_child (replicate (nodeWidth tc) None) (zip ?is ?items)"
  have cnt: "length ?items = length ?is" using assms(3) by simp
  have acc: "\<forall>x \<in> set ?items. accepted_child x"
    using assms(4) accepted_plain by auto
  have p: "ParseNode (encode (Lst [Str bitlist, Lst ?items])) tc = Inr (InternalNode ?cs 0 None None tc)"
    using assms(1,2) cnt acc assms(5) by (rule ParseNode_internal_encode)
  have d: "distinct (map fst (zip ?is ?items))"
    using cnt indicesFromBitlist_distinct[of bitlist] by simp
  have stored: "?cs ! (?is ! k) = Some (ns ! k)" if k: "k < length ns" for k
  proof -
    have in_set: "?is ! k \<in> set ?is" using k assms(3) by simp
    have lt: "?is ! k < nodeWidth tc"
      using indicesFromBitlist_bound[OF in_set] assms(1,2) by simp
    have "?cs ! fst (zip ?is ?items ! k) =
        (case stored_child (snd (zip ?is ?items ! k)) of
           None \<Rightarrow> replicate (nodeWidth tc) None ! fst (zip ?is ?items ! k)
         | Some n \<Rightarrow> Some n)"
      using d k assms(3) lt by (intro foldl_put_child_nth) simp_all
    moreover have "stored_child (node_item (ns ! k)) = Some (ns ! k)"
      using assms(4) k by (simp add: stored_plain)
    ultimately show ?thesis
      using k assms(3) by simp
  qed
  have empty: "?cs ! i = None" if "i < nodeWidth tc" and "i \<notin> set ?is" for i
  proof -
    have "i \<notin> set (map fst (zip ?is ?items))" using that(2) cnt by simp
    then have "?cs ! i = replicate (nodeWidth tc) None ! i"
      by (rule foldl_put_child_other)
    with that(1) show ?thesis by simp
  qed
  have "length ?cs = nodeWidth tc" by simp
  with p stored empty indicesFromBitlist_set[of bitlist] indicesFromBitlist_sorted[of bitlist]
  show ?thesis by blast
qed

text \<open>Two children under the bitmap with bits 0 and 2 set.\<close>

theorem createInternalNode_slots_witness:
  "\<exists>cs. ParseNode
          (encode (Lst [Str (5 # replicate 127 0),
                        Lst (map node_item [LeafNode (replicate 32 1) [9], HashedNode (replicate 32 2)])]))
          (GetTreeConfig 10) = Inr (InternalNode cs 0 None None (GetTreeConfig 10)) \<and>
        cs ! 0 = Some (LeafNode (replicate 32 1) [9]) \<and>
        cs ! 1 = None \<and>
        cs ! 2 = Some (HashedNode (replicate 32 2))"
proof -
  let ?b = "5 # replicate 127 (0::byte)"
  let ?ns = "[LeafNode (replicate 32 1) [9], HashedNode (replicate 32 2)]"
  have h1: "length ?b = 128" by simp
  have h2: "1024 \<le> nodeWidth (GetTreeConfig 10)" by (simp add: GetTreeConfig_def)
  have h3: "length ?ns = length (indicesFromBitlist ?b)" by (simp add: indices_example)
  have h4: "\<forall>n \<in> set ?ns. plain_child n" by simp
  have h5: "encodable (Lst [Str ?b, Lst (map node_item ?ns)])"
    by (simp add: encodable_def header_def be_bytes.simps)
  from createInternalNode_slots[OF h1 h2 h3 h4 h5]
  obtain cs where p: "ParseNode (encode (Lst [Str ?b, Lst (map node_item ?ns)])) (GetTreeConfig 10) =
        Inr (InternalNode cs 0 None None (GetTreeConfig 10))"
    and s: "\<forall>k < length ?ns. cs ! (indicesFromBitlist ?b ! k) = Some (?ns ! k)"
    and e: "\<forall>i < nodeWidth (GetTreeConfig 10). i \<notin> set (indicesFromBitlist ?b) \<longrightarrow> cs ! i = None"
    by blast
  from s have "cs ! (indicesFromBitlist ?b ! 0) = Some (?ns ! 0)" by simp
  then have 0: "cs ! 0 = Some (LeafNode (replicate 32 1) [9])" by (simp add: indices_example)
  from s have "cs ! (indicesFromBitlist ?b ! 1) = Some (?ns ! 1)" by simp
  then have 2: "cs ! 2 = Some (HashedNode (replicate 32 2))" by (simp add: indices_example)
  from e h2 have 1: "cs ! 1 = None" by (simp add: indices_example)
  from p 0 1 2 show ?thesis by blast
qed

text \<open>
  An encoding of an internal node for which no child is assigned to a slot: the bitmap
  has bits 0 and 2 set, the first child is the encoding of a leaf and the second child
  is the encoding of an internal node that holds one leaf. \<^verbatim>\<open>ParseNode\<close> returns an error,
  so the second child does not reach slot 2, and the first child does not reach slot 0.
\<close>

theorem createInternalNode_slots_counterexample:
  "indicesFromBitlist (5 # replicate 127 0) = [0, 2] \<and>
   ParseNode
     (encode (Lst [Str (5 # replicate 127 0),
                   Lst [Lst [Str (replicate 32 1), Str [9]],
                        Lst [Str (1 # replicate 127 0), Lst [Lst [Str (replicate 32 1), Str [9]]]]]]))
     (GetTreeConfig 10) = Inl ErrExpectedString"
  by code_simp

text \<open>
  Claim C3, as the code has it. In a round of the loop of \<^verbatim>\<open>createInternalNode\<close>, a child
  that is a list of one string is stored as a hashed node, and a child that is a list of
  two strings is stored as a leaf, whatever the length of its first string; a child
  that is a list of a string and a list, the shape of an internal node, is not rebuilt:
  the loop returns \<^verbatim>\<open>ErrExpectedString\<close>.
\<close>

theorem createInternalNode_child_shapes:
  "(encodable (Lst [Str h]) \<and> index < length cs \<longrightarrow>
      createInternalNode_loop (index # indices) (encode (Lst [Str h]) @ rest) cs =
        createInternalNode_loop indices rest (cs[index := Some (HashedNode (BytesToHash h))])) \<and>
   (encodable (Lst [Str k, Str v]) \<and> index < length cs \<longrightarrow>
      createInternalNode_loop (index # indices) (encode (Lst [Str k, Str v]) @ rest) cs =
        createInternalNode_loop indices rest (cs[index := Some (LeafNode k v)])) \<and>
   (encodable (Lst [Str b, Lst ys]) \<longrightarrow>
      createInternalNode_loop (index # indices) (encode (Lst [Str b, Lst ys]) @ rest) cs =
        Inl ErrExpectedString)"
proof (intro conjI impI)
  assume a: "encodable (Lst [Str h]) \<and> index < length cs"
  then show "createInternalNode_loop (index # indices) (encode (Lst [Str h]) @ rest) cs =
      createInternalNode_loop indices rest (cs[index := Some (HashedNode (BytesToHash h))])"
    using loop_step_hashed[of h index indices rest cs] by (simp add: store_child_def)
next
  assume a: "encodable (Lst [Str k, Str v]) \<and> index < length cs"
  then show "createInternalNode_loop (index # indices) (encode (Lst [Str k, Str v]) @ rest) cs =
      createInternalNode_loop indices rest (cs[index := Some (LeafNode k v)])"
    using loop_step_leaf[of k v index indices rest cs] by (simp add: store_child_def)
next
  assume "encodable (Lst [Str b, Lst ys])"
  then show "createInternalNode_loop (index # indices) (encode (Lst [Str b, Lst ys]) @ rest) cs =
      Inl ErrExpectedString"
    by (rule loop_step_nested)
qed

text \<open>The three shapes at concrete children.\<close>

theorem createInternalNode_child_shapes_witness:
  "createInternalNode_loop [0] (encode (Lst [Str [1, 2]])) [None, None] =
     Inr [Some (HashedNode (BytesToHash [1, 2])), None] \<and>
   createInternalNode_loop [1] (encode (Lst [Str (replicate 128 0), Str [3]])) [None, None] =
     Inr [None, Some (LeafNode (replicate 128 0) [3])] \<and>
   createInternalNode_loop [0] (encode (Lst [Str (replicate 128 0), Lst []])) [None, None] =
     Inl ErrExpectedString"
proof -
  have e1: "encodable (Lst [Str [1, 2]])"
    by (simp add: encodable_def header_def)
  have e2: "encodable (Lst [Str (replicate 128 0), Str [3]])"
    by (simp add: encodable_def header_def be_bytes.simps)
  have e3: "encodable (Lst [Str (replicate 128 0), Lst []])"
    by (simp add: encodable_def header_def be_bytes.simps)
  note w = createInternalNode_child_shapes[of "[1, 2]" 0 "[None, None]" "[]" "[]"
      "replicate 128 0" "[3]" "replicate 128 0" "[]"]
  note w' = createInternalNode_child_shapes[of "[1, 2]" 1 "[None, None]" "[]" "[]"
      "replicate 128 0" "[3]" "replicate 128 0" "[]"]
  have 1: "createInternalNode_loop [0] (encode (Lst [Str [1, 2]])) [None, None] =
      Inr [Some (HashedNode (BytesToHash [1, 2])), None]"
    using w e1 by simp
  have 2: "createInternalNode_loop [1] (encode (Lst [Str (replicate 128 0), Str [3]])) [None, None] =
      Inr [None, Some (LeafNode (replicate 128 0) [3])]"
    using w' e2 by simp
  have 3: "createInternalNode_loop [0] (encode (Lst [Str (replicate 128 0), Lst []])) [None, None] =
      Inl ErrExpectedString"
    using w e3 by simp
  from 1 2 3 show ?thesis by (simp only: simp_thms)
qed

text \<open>
  An internal node whose only child is the encoding of an internal node, itself with one
  hashed child: \<^verbatim>\<open>ParseNode\<close> returns an error instead of a nested internal node.
\<close>

theorem createInternalNode_child_shapes_counterexample:
  "ParseNode
     (encode (Lst [Str (1 # replicate 127 0),
                   Lst [Lst [Str (1 # replicate 127 0), Lst [Lst [Str (replicate 32 7)]]]]]))
     (GetTreeConfig 10) = Inl ErrExpectedString"
  by code_simp

text \<open>
  Claim C9. When every child in the list of children is either a list that the loop
  stores (one string, or two strings) or a list whose count of values is neither 1 nor
  2, \<^verbatim>\<open>ParseNode\<close> returns an internal node and no error. The slot designated by the
  bitmap for each child of the second kind is empty, and the loop goes on with the
  children that remain: every child that is a list of one string is in its slot as a
  hashed node, every child that is a list of two strings is in its slot as a leaf, also
  after a child that was skipped. The slots that the bitmap does not designate are
  empty.
\<close>

theorem ParseNode_skips_children:
  assumes "length bitlist = 128"
    and "1024 \<le> nodeWidth tc"
    and "length items = length (indicesFromBitlist bitlist)"
    and "\<forall>x \<in> set items. accepted_child x"
    and "encodable (Lst [Str bitlist, Lst items])"
  shows "\<exists>cs. ParseNode (encode (Lst [Str bitlist, Lst items])) tc =
                Inr (InternalNode cs 0 None None tc) \<and>
           length cs = nodeWidth tc \<and>
           (\<forall>k < length items. skipped_child (items ! k) \<longrightarrow>
              cs ! (indicesFromBitlist bitlist ! k) = None) \<and>
           (\<forall>k < length items. \<forall>h. items ! k = Lst [Str h] \<longrightarrow>
              cs ! (indicesFromBitlist bitlist ! k) = Some (HashedNode (BytesToHash h))) \<and>
           (\<forall>k < length items. \<forall>key v. items ! k = Lst [Str key, Str v] \<longrightarrow>
              cs ! (indicesFromBitlist bitlist ! k) = Some (LeafNode key v)) \<and>
           (\<forall>i < nodeWidth tc. i \<notin> set (indicesFromBitlist bitlist) \<longrightarrow> cs ! i = None)"
proof -
  let ?is = "indicesFromBitlist bitlist"
  let ?cs = "foldl put_child (replicate (nodeWidth tc) None) (zip ?is items)"
  have p: "ParseNode (encode (Lst [Str bitlist, Lst items])) tc = Inr (InternalNode ?cs 0 None None tc)"
    using assms by (rule ParseNode_internal_encode)
  have d: "distinct (map fst (zip ?is items))"
    using assms(3) indicesFromBitlist_distinct[of bitlist] by simp
  have slot: "?cs ! (?is ! k) = stored_child (items ! k)" if k: "k < length items" for k
  proof -
    have in_set: "?is ! k \<in> set ?is" using k assms(3) by simp
    have lt: "?is ! k < nodeWidth tc"
      using indicesFromBitlist_bound[OF in_set] assms(1,2) by simp
    have "?cs ! fst (zip ?is items ! k) =
        (case stored_child (snd (zip ?is items ! k)) of
           None \<Rightarrow> replicate (nodeWidth tc) None ! fst (zip ?is items ! k)
         | Some n \<Rightarrow> Some n)"
      using d k assms(3) lt by (intro foldl_put_child_nth) simp_all
    then show ?thesis
      using k assms(3) lt by (simp split: option.splits)
  qed
  have skipped: "?cs ! (?is ! k) = None" if "k < length items" and "skipped_child (items ! k)" for k
    using slot[OF that(1)] stored_skipped[OF that(2)] by simp
  have hashed: "?cs ! (?is ! k) = Some (HashedNode (BytesToHash h))"
    if "k < length items" and "items ! k = Lst [Str h]" for k h
    using slot[OF that(1)] that(2) by simp
  have leaf: "?cs ! (?is ! k) = Some (LeafNode key v)"
    if "k < length items" and "items ! k = Lst [Str key, Str v]" for k key v
    using slot[OF that(1)] that(2) by simp
  have empty: "?cs ! i = None" if "i < nodeWidth tc" and "i \<notin> set ?is" for i
  proof -
    have "i \<notin> set (map fst (zip ?is items))" using that(2) assms(3) by simp
    then have "?cs ! i = replicate (nodeWidth tc) None ! i"
      by (rule foldl_put_child_other)
    with that(1) show ?thesis by simp
  qed
  have "length ?cs = nodeWidth tc" by simp
  with p skipped hashed leaf empty show ?thesis by blast
qed

text \<open>
  A child of three values under bit 0, then a hashed node under bit 2: slot 0 is empty
  and the hashed node is in slot 2.
\<close>

theorem ParseNode_skips_children_witness:
  "\<exists>cs. ParseNode
          (encode (Lst [Str (5 # replicate 127 0),
                        Lst [Lst [Str [1], Str [2], Str [3]], Lst [Str [7]]]]))
          (GetTreeConfig 10) = Inr (InternalNode cs 0 None None (GetTreeConfig 10)) \<and>
        cs ! 0 = None \<and>
        cs ! 2 = Some (HashedNode (BytesToHash [7]))"
proof -
  let ?b = "5 # replicate 127 (0::byte)"
  let ?items = "[Lst [Str [1], Str [2], Str [3]], Lst [Str [7]]]"
  have h1: "length ?b = 128" by simp
  have h2: "1024 \<le> nodeWidth (GetTreeConfig 10)" by (simp add: GetTreeConfig_def)
  have h3: "length ?items = length (indicesFromBitlist ?b)" by (simp add: indices_example)
  have h4: "\<forall>x \<in> set ?items. accepted_child x" by (simp add: accepted_child_def)
  have h5: "encodable (Lst [Str ?b, Lst ?items])"
    by (simp add: encodable_def header_def be_bytes.simps)
  from ParseNode_skips_children[OF h1 h2 h3 h4 h5]
  obtain cs where p: "ParseNode (encode (Lst [Str ?b, Lst ?items])) (GetTreeConfig 10) =
        Inr (InternalNode cs 0 None None (GetTreeConfig 10))"
    and s: "\<forall>k < length ?items. skipped_child (?items ! k) \<longrightarrow>
        cs ! (indicesFromBitlist ?b ! k) = None"
    and h: "\<forall>k < length ?items. \<forall>h. ?items ! k = Lst [Str h] \<longrightarrow>
        cs ! (indicesFromBitlist ?b ! k) = Some (HashedNode (BytesToHash h))"
    by blast
  from s have "cs ! (indicesFromBitlist ?b ! 0) = None" by simp
  then have 0: "cs ! 0 = None" by (simp add: indices_example)
  from h have "cs ! (indicesFromBitlist ?b ! 1) = Some (HashedNode (BytesToHash [7]))" by simp
  then have 2: "cs ! 2 = Some (HashedNode (BytesToHash [7]))" by (simp add: indices_example)
  from p 0 2 show ?thesis by blast
qed

text \<open>
  Claim C10. \<^verbatim>\<open>ParseNode\<close> on a list of one string succeeds for every length of the
  string, and returns the hashed node whose hash is the string padded on the left with
  zero bytes when it is shorter than 32 bytes, and its last 32 bytes when it is longer.
\<close>

theorem ParseNode_hashed_any_length:
  assumes "encodable (Lst [Str h])"
  shows "ParseNode (encode (Lst [Str h])) tc =
           Inr (HashedNode
                  (if length h \<le> 32 then replicate (32 - length h) 0 @ h
                   else drop (length h - 32) h))"
proof (cases "length h \<le> 32")
  case True
  then show ?thesis
    using ParseNode_encode_hashed[OF assms, of tc] by (simp only: BytesToHash_short if_True)
next
  case False
  then have "32 < length h" by simp
  then show ?thesis
    using ParseNode_encode_hashed[OF assms, of tc] False by (simp only: BytesToHash_long if_False)
qed

text \<open>A string of 3 bytes and a string of 41 bytes.\<close>

theorem ParseNode_hashed_any_length_witness:
  "encodable (Lst [Str [1, 2, 3]]) \<and>
   ParseNode (encode (Lst [Str [1, 2, 3]])) (GetTreeConfig 10) =
     Inr (HashedNode (replicate 29 0 @ [1, 2, 3])) \<and>
   encodable (Lst [Str (replicate 40 7 @ [9])]) \<and>
   ParseNode (encode (Lst [Str (replicate 40 7 @ [9])])) (GetTreeConfig 10) =
     Inr (HashedNode (replicate 31 7 @ [9]))"
proof -
  have e1: "encodable (Lst [Str [1, 2, 3]])" by (simp add: encodable_def header_def)
  have e2: "encodable (Lst [Str (replicate 40 7 @ [9])])" by (simp add: encodable_def header_def)
  have r2: "drop 9 (replicate 40 (7::byte) @ [9]) = replicate 31 7 @ [9]" by code_simp
  show ?thesis
    using e1 e2 ParseNode_hashed_any_length[OF e1, of "GetTreeConfig 10"]
      ParseNode_hashed_any_length[OF e2, of "GetTreeConfig 10"] r2
    by simp
qed

section \<open>Round trips\<close>

text \<open>The keys and the value of \<^verbatim>\<open>tree_test.go\<close>.\<close>

definition testValue :: bytes where
  "testValue = [0x68, 0x65, 0x6c, 0x6c, 0x6f]"

definition zeroKeyTest :: bytes where
  "zeroKeyTest = replicate 32 0"

definition oneKeyTest :: bytes where
  "oneKeyTest = replicate 31 0 @ [1]"

definition fourtyKeyTest :: bytes where
  "fourtyKeyTest = 0x40 # replicate 31 0"

definition ffx32KeyTest :: bytes where
  "ffx32KeyTest = replicate 32 0xff"

lemma encodable_hashed: "length h = 32 \<Longrightarrow> encodable (Lst [Str h])"
  by (simp add: encodable_def header_def)

lemma roundtrip_leaf:
  assumes "length k = 32" and "encodable (node_item (LeafNode k v))"
  shows "ParseNode (Serialize (LeafNode k v)) tc = Inr (LeafNode k v)"
  using ParseNode_encode_leaf[of k v tc] assms by (simp add: Serialize_def)

lemma roundtrip_hashed:
  assumes "length h = 32"
  shows "ParseNode (Serialize (HashedNode h)) tc = Inr (HashedNode h)"
  using ParseNode_encode_hashed[OF encodable_hashed[OF assms], of tc] assms
  by (simp add: Serialize_def BytesToHash_short)

lemma roundtrip_internal:
  assumes len: "length cs = 1024" and wide: "nodeWidth tc = 1024"
    and plain: "\<forall>n. Some n \<in> set cs \<longrightarrow> plain_child n"
    and enc: "encodable (node_item (InternalNode cs d cm hs tc'))"
  shows "ParseNode (Serialize (InternalNode cs d cm hs tc')) tc = Inr (InternalNode cs 0 None None tc)"
proof -
  let ?occ = "filter (\<lambda>m. cs ! m \<noteq> None) [0..<length cs]"
  let ?items = "map (\<lambda>m. node_item (the (cs ! m))) ?occ"
  let ?b = "bitlist_of cs"
  have item: "node_item (InternalNode cs d cm hs tc') = Lst [Str ?b, Lst ?items]"
    by (simp add: occupied_items)
  have ix: "indicesFromBitlist ?b = ?occ"
    using len by (simp add: indices_bitlist_of)
  have h1: "length ?b = 128" using len by simp
  have h2: "1024 \<le> nodeWidth tc" using wide by simp
  have h3: "length ?items = length (indicesFromBitlist ?b)" by (simp add: ix)
  have pl: "plain_child (the (cs ! m))" if "m \<in> set ?occ" for m
  proof -
    from that have "m < length cs" and "cs ! m \<noteq> None" by auto
    then obtain n where "cs ! m = Some n" by auto
    with \<open>m < length cs\<close> have "Some n \<in> set cs" by (metis nth_mem)
    with plain \<open>cs ! m = Some n\<close> show ?thesis by simp
  qed
  have h4: "\<forall>x \<in> set ?items. accepted_child x"
    using pl accepted_plain by auto
  have h5: "encodable (Lst [Str ?b, Lst ?items])" using enc item by simp
  let ?cs' = "foldl put_child (replicate (nodeWidth tc) None) (zip ?occ ?items)"
  have p: "ParseNode (encode (Lst [Str ?b, Lst ?items])) tc = Inr (InternalNode ?cs' 0 None None tc)"
    using ParseNode_internal_encode[OF h1 h2 h3 h4 h5] by (simp only: ix)
  have d: "distinct (map fst (zip ?occ ?items))" by simp
  have "?cs' = cs"
  proof (rule nth_equalityI)
    show "length ?cs' = length cs" using len wide by simp
  next
    fix m assume "m < length ?cs'"
    then have m: "m < length cs" using len wide by simp
    show "?cs' ! m = cs ! m"
    proof (cases "cs ! m")
      case None
      then have "m \<notin> set (map fst (zip ?occ ?items))" by simp
      then have "?cs' ! m = replicate (nodeWidth tc) None ! m"
        by (rule foldl_put_child_other)
      with None m len wide show ?thesis by simp
    next
      case (Some n)
      with m have mem: "m \<in> set ?occ" by simp
      then obtain k where k: "k < length ?occ" and km: "?occ ! k = m"
        by (metis in_set_conv_nth)
      have lt: "fst (zip ?occ ?items ! k) < length (replicate (nodeWidth tc) (None :: VerkleNode option))"
        using k km m len wide by simp
      have "?cs' ! fst (zip ?occ ?items ! k) =
          (case stored_child (snd (zip ?occ ?items ! k)) of
             None \<Rightarrow> replicate (nodeWidth tc) None ! fst (zip ?occ ?items ! k)
           | Some n \<Rightarrow> Some n)"
        using d k lt by (intro foldl_put_child_nth) simp_all
      moreover have "stored_child (node_item (the (cs ! m))) = Some (the (cs ! m))"
        using pl[OF mem] by (rule stored_plain)
      ultimately show ?thesis using k km Some by simp
    qed
  qed
  with p item show ?thesis by (simp only: Serialize_def)
qed

lemma filter_upt_first:
  assumes "i < n" and "P i" and "\<forall>j < i. \<not> P j"
  shows "filter P [0..<n] = i # filter P [Suc i..<n]"
proof -
  have "[0..<n] = [0..<i] @ i # [Suc i..<n]"
    using assms(1) by (metis le0 less_imp_le_nat upt_add_eq_append upt_conv_Cons le_add_diff_inverse add.commute)
  moreover have "filter P [0..<i] = []" using assms(3) by (simp add: filter_empty_conv)
  ultimately show ?thesis using assms(2) by simp
qed

lemma roundtrip_nested_error:
  assumes len: "length cs = 1024" and i: "i < 1024"
    and child: "cs ! i = Some (InternalNode cs1 d1 cm1 hs1 tc1)"
    and first: "\<forall>j < i. cs ! j = None"
    and enc: "encodable (node_item (InternalNode cs d cm hs tc'))"
  shows "ParseNode (Serialize (InternalNode cs d cm hs tc')) tc = Inl ErrExpectedString"
proof -
  let ?P = "\<lambda>m. cs ! m \<noteq> None"
  let ?f = "\<lambda>m. node_item (the (cs ! m))"
  let ?b = "bitlist_of cs"
  let ?rest = "filter ?P [Suc i..<length cs]"
  let ?inner = "Lst [Str (bitlist_of cs1),
      Lst (concat (map (\<lambda>c. case c of None \<Rightarrow> [] | Some n \<Rightarrow> [node_item n]) cs1))]"
  have occ: "filter ?P [0..<length cs] = i # ?rest"
    using filter_upt_first[of i "length cs" ?P] i len child first by simp
  have ix: "indicesFromBitlist ?b = i # ?rest"
    using len occ by (simp add: indices_bitlist_of)
  have fi: "?f i = ?inner" using child by simp
  have item: "node_item (InternalNode cs d cm hs tc') = Lst [Str ?b, Lst (?inner # map ?f ?rest)]"
    by (simp only: node_item.simps occupied_items occ list.map fi)
  have h1: "length ?b = 128" using len by simp
  have e: "encodable (Lst [Str ?b, Lst (?inner # map ?f ?rest)])" using enc item by simp
  have e1: "encodable (Lst (?inner # map ?f ?rest))" using encodable_member[OF e] by simp
  have e2: "encodable ?inner" using encodable_member[OF e1] by simp
  have "createInternalNode_loop (i # ?rest)
      (encode ?inner @ concat (map encode (map ?f ?rest))) (replicate (nodeWidth tc) None) =
        Inl ErrExpectedString"
    by (rule loop_step_nested[OF e2])
  then have "createInternalNode ?b (concat (map encode (?inner # map ?f ?rest))) tc =
      Inl ErrExpectedString"
    by (simp add: createInternalNode_def newInternalNode_def ix)
  with ParseNode_encode_internal[OF e h1, of tc] item show ?thesis
    by (simp only: Serialize_def)
qed

lemma concat_map_None:
  "concat (map (\<lambda>c. case c of None \<Rightarrow> [] | Some n \<Rightarrow> [f n]) (replicate k None)) = []"
  by (induction k) auto

text \<open>
  Claim C4, as the code has it. Parsing the serialization of a leaf with a key of 32
  bytes gives the leaf, and parsing the serialization of a hashed node with a hash of 32
  bytes gives the hashed node. For an internal node of 1024 slots whose occupied slots
  hold leaves and such hashed nodes, and whose depth is 0, parsing the serialization
  under a configuration of 1024 slots gives the internal node with the same slots and
  the same depth, with no cached commitment and no cached hash.
\<close>

theorem parse_serialize_roundtrip:
  "(length k = 32 \<and> encodable (node_item (LeafNode k v)) \<longrightarrow>
      ParseNode (Serialize (LeafNode k v)) tc = Inr (LeafNode k v)) \<and>
   (length h = 32 \<longrightarrow>
      ParseNode (Serialize (HashedNode h)) tc = Inr (HashedNode h)) \<and>
   (length cs = 1024 \<and> nodeWidth tc = 1024 \<and> (\<forall>n. Some n \<in> set cs \<longrightarrow> plain_child n) \<and>
    encodable (node_item (InternalNode cs 0 cm hs tc')) \<longrightarrow>
      ParseNode (Serialize (InternalNode cs 0 cm hs tc')) tc =
        Inr (InternalNode cs 0 None None tc))"
proof (intro conjI impI)
  assume "length k = 32 \<and> encodable (node_item (LeafNode k v))"
  then show "ParseNode (Serialize (LeafNode k v)) tc = Inr (LeafNode k v)"
    using roundtrip_leaf by blast
next
  assume "length h = 32"
  then show "ParseNode (Serialize (HashedNode h)) tc = Inr (HashedNode h)"
    by (rule roundtrip_hashed)
next
  assume "length cs = 1024 \<and> nodeWidth tc = 1024 \<and> (\<forall>n. Some n \<in> set cs \<longrightarrow> plain_child n) \<and>
    encodable (node_item (InternalNode cs 0 cm hs tc'))"
  then show "ParseNode (Serialize (InternalNode cs 0 cm hs tc')) tc =
      Inr (InternalNode cs 0 None None tc)"
    using roundtrip_internal by blast
qed

text \<open>A leaf, a hashed node, and the root that holds the leaves of two test keys.\<close>

theorem parse_serialize_roundtrip_witness:
  "ParseNode (Serialize (LeafNode zeroKeyTest testValue)) (GetTreeConfig 10) =
     Inr (LeafNode zeroKeyTest testValue) \<and>
   ParseNode (Serialize (HashedNode (replicate 32 7))) (GetTreeConfig 10) =
     Inr (HashedNode (replicate 32 7)) \<and>
   ParseNode
     (Serialize
        (InternalNode
           (Some (LeafNode zeroKeyTest testValue) # replicate 1022 None @
            [Some (LeafNode ffx32KeyTest testValue)])
           0 (Some (replicate 48 1)) (Some 5) (GetTreeConfig 10)))
     (GetTreeConfig 10) =
     Inr (InternalNode
            (Some (LeafNode zeroKeyTest testValue) # replicate 1022 None @
             [Some (LeafNode ffx32KeyTest testValue)])
            0 None None (GetTreeConfig 10))"
proof -
  let ?cs = "Some (LeafNode zeroKeyTest testValue) # replicate 1022 None @
      [Some (LeafNode ffx32KeyTest testValue)]"
  note rt = parse_serialize_roundtrip[where k = zeroKeyTest and v = testValue
      and tc = "GetTreeConfig 10" and h = "replicate 32 7" and cs = ?cs
      and cm = "Some (replicate 48 1)" and hs = "Some 5" and tc' = "GetTreeConfig 10"]
  have l1: "length zeroKeyTest = 32 \<and> encodable (node_item (LeafNode zeroKeyTest testValue))"
    by (simp add: encodable_def header_def zeroKeyTest_def testValue_def)
  have l2: "length (replicate 32 (7::byte)) = 32" by simp
  have plain: "\<forall>n. Some n \<in> set ?cs \<longrightarrow> plain_child n" by auto
  have enc: "encodable (node_item (InternalNode ?cs 0 (Some (replicate 48 1)) (Some 5) (GetTreeConfig 10)))"
    by (simp add: encodable_def header_def be_bytes.simps concat_map_None
        zeroKeyTest_def ffx32KeyTest_def testValue_def)
  have l3: "length ?cs = 1024 \<and> nodeWidth (GetTreeConfig 10) = 1024 \<and>
      (\<forall>n. Some n \<in> set ?cs \<longrightarrow> plain_child n) \<and>
      encodable (node_item (InternalNode ?cs 0 (Some (replicate 48 1)) (Some 5) (GetTreeConfig 10)))"
    using plain enc by (simp add: GetTreeConfig_def)
  from rt l1 l2 l3 show ?thesis by blast
qed

text \<open>
  An internal node that is not preserved: its slot 0 holds an internal node of depth 1
  with two leaves, and parsing its serialization returns an error.
\<close>

theorem roundtrip_counterexample:
  "ParseNode
     (Serialize
        (InternalNode
           (Some (InternalNode
                    ([Some (LeafNode zeroKeyTest testValue),
                      Some (LeafNode ([0, 0, 0x10] @ replicate 29 0) testValue)] @
                     replicate 1022 None)
                    1 None None (GetTreeConfig 10)) #
            replicate 1023 None)
           0 None None (GetTreeConfig 10)))
     (GetTreeConfig 10) = Inl ErrExpectedString"
proof (rule roundtrip_nested_error[where i = 0])
  show "encodable (node_item (InternalNode
           (Some (InternalNode
                    ([Some (LeafNode zeroKeyTest testValue),
                      Some (LeafNode ([0, 0, 0x10] @ replicate 29 0) testValue)] @
                     replicate 1022 None)
                    1 None None (GetTreeConfig 10)) #
            replicate 1023 None)
           0 None None (GetTreeConfig 10)))"
    by (simp add: encodable_def header_def be_bytes.simps concat_map_None zeroKeyTest_def testValue_def)
qed simp_all

section \<open>The tree: insertion and lookup\<close>

text \<open>
  Modelled from the spec: \<^verbatim>\<open>New\<close>, \<^verbatim>\<open>Insert\<close> and \<^verbatim>\<open>Get\<close> are in \<^verbatim>\<open>tree.go\<close>, which is
  not among the sources; \<^verbatim>\<open>tree_test.go\<close> calls them. The spec (4.C) gives the slot of a
  key at depth \<open>d\<close> as the bits \<open>[d * w, (d + 1) * w)\<close> of the key, most significant bit
  first, read as a big-endian number; bits past the end of the key, which the last level
  reaches when \<open>w\<close> does not divide 256, are taken as 0. \<open>Depth\<close> is \<open>ceil (256 / w)\<close>.
\<close>

definition key_bit :: "bytes \<Rightarrow> nat \<Rightarrow> bool" where
  "key_bit key p = (p < 8 * length key \<and> bit (key ! (p div 8)) (7 - p mod 8))"

definition child_index :: "bytes \<Rightarrow> nat \<Rightarrow> nat \<Rightarrow> nat" where
  "child_index key d w = foldl (\<lambda>acc j. 2 * acc + of_bool (key_bit key (d * w + j))) 0 [0..<w]"

definition maxDepth :: "nat \<Rightarrow> nat" where
  "maxDepth w = (256 + w - 1) div w"

definition New :: "nat \<Rightarrow> VerkleNode" where
  "New w = newInternalNode 0 (GetTreeConfig w)"

fun internal_count :: "VerkleNode \<Rightarrow> nat" where
  "internal_count (InternalNode cs d cm hs tc) =
     Suc (sum_list (map (\<lambda>c. case c of None \<Rightarrow> 0 | Some n \<Rightarrow> internal_count n) cs))"
| "internal_count (LeafNode k v) = 0"
| "internal_count (HashedNode h) = 0"

definition branch_with_leaf :: "nat \<Rightarrow> TreeConfig \<Rightarrow> bytes \<Rightarrow> bytes \<Rightarrow> VerkleNode" where
  "branch_with_leaf d tc k v =
     InternalNode ((replicate (nodeWidth tc) None)[child_index k d (width tc) := Some (LeafNode k v)])
       d None None tc"

fun node_depth :: "VerkleNode \<Rightarrow> nat" where
  "node_depth (InternalNode cs d cm hs tc) = d"
| "node_depth _ = 0"

fun node_width :: "VerkleNode \<Rightarrow> nat" where
  "node_width (InternalNode cs d cm hs tc) = width tc"
| "node_width _ = 0"

lemma internal_count_branch: "internal_count (branch_with_leaf d tc k v) = 1"
proof -
  let ?slots = "(replicate (nodeWidth tc) None)[child_index k d (width tc) := Some (LeafNode k v)]"
  have "\<forall>c \<in> set ?slots. (case c of None \<Rightarrow> 0 | Some n \<Rightarrow> internal_count n) = 0"
    by (auto dest!: set_update_subset_insert[THEN subsetD])
  then have "sum_list (map (\<lambda>c. case c of None \<Rightarrow> 0 | Some n \<Rightarrow> internal_count n) ?slots) = 0"
    by (simp only: sum_list_eq_0_iff set_map) (simp only: ball_simps)
  then show ?thesis by (simp add: branch_with_leaf_def)
qed

lemma internal_count_child:
  assumes "Some c \<in> set cs"
  shows "internal_count c < internal_count (InternalNode cs d cm hs tc)"
proof -
  let ?f = "\<lambda>c. case c of None \<Rightarrow> 0 | Some n \<Rightarrow> internal_count n"
  from assms have "?f (Some c) \<in> set (map ?f cs)"
    by (simp only: set_map) (rule imageI)
  then have "?f (Some c) \<le> sum_list (map ?f cs)"
    by (rule member_le_sum_list) simp
  then show ?thesis by simp
qed

text \<open>
  Modelled from the spec: \<^verbatim>\<open>Insert\<close> (4.C). A slot that holds a leaf with another key is
  replaced by a new internal node of depth \<open>d + 1\<close> into which the leaf is inserted again
  and then the new pair; \<open>branch_with_leaf\<close> is that new node with the leaf already in its
  slot, which is what inserting into an empty node does. The cached commitment and hash
  of every node on the path are cleared. The spec gives \<^verbatim>\<open>Insert\<close> for an internal node
  and says that a hashed node cannot absorb a write; on a leaf the call is an error here
  as well (the root is an internal node, and the recursion enters internal nodes only).
\<close>

function Insert :: "VerkleNode \<Rightarrow> bytes \<Rightarrow> bytes \<Rightarrow> error + VerkleNode" where
  "Insert (InternalNode cs d cm hs tc) key val =
     (let i = child_index key d (width tc) in
      if length cs \<le> i then Inl PanicIndexOutOfRange
      else
        (case cs ! i of
           None \<Rightarrow> Inr (InternalNode (cs[i := Some (LeafNode key val)]) d None None tc)
         | Some (LeafNode k v) \<Rightarrow>
             if k = key then Inr (InternalNode (cs[i := Some (LeafNode k val)]) d None None tc)
             else if d + 1 > maxDepth (width tc) then Inl ErrDepthExceeded
             else
               (case Insert (branch_with_leaf (d + 1) tc k v) key val of
                  Inl err \<Rightarrow> Inl err
                | Inr branch \<Rightarrow> Inr (InternalNode (cs[i := Some branch]) d None None tc))
         | Some (InternalNode cs' d' cm' hs' tc') \<Rightarrow>
             (case Insert (InternalNode cs' d' cm' hs' tc') key val of
                Inl err \<Rightarrow> Inl err
              | Inr child \<Rightarrow> Inr (InternalNode (cs[i := Some child]) d None None tc))
         | Some (HashedNode h) \<Rightarrow> Inl ErrInsertIntoHash))"
| "Insert (LeafNode k v) key val = Inl ErrInsertIntoLeaf"
| "Insert (HashedNode h) key val = Inl ErrInsertIntoHash"
  by pat_completeness auto
termination
proof (relation "measures [\<lambda>(n, k, v). internal_count n,
    \<lambda>(n, k, v). Suc (maxDepth (node_width n)) - node_depth n]", goal_cases)
  case 1
  show ?case by simp
next
  case (2 cs d cm hs tc key val x x2 x11 x12)
  have ic: "internal_count (branch_with_leaf (d + 1) tc x11 x12) = 1"
    by (rule internal_count_branch)
  have nd: "node_depth (branch_with_leaf (d + 1) tc x11 x12) = d + 1"
    and nw: "node_width (branch_with_leaf (d + 1) tc x11 x12) = width tc"
    by (simp_all add: branch_with_leaf_def)
  have ge: "1 \<le> internal_count (InternalNode cs d cm hs tc)" by simp
  have "Suc (maxDepth (width tc)) - (d + 1) < Suc (maxDepth (width tc)) - d"
    using 2 by simp
  with ic nd nw ge show ?case
    by (simp only: in_measures prod.case node_depth.simps node_width.simps simp_thms) linarith
next
  case (3 cs d cm hs tc key val x x2 x31 x32 x33 x34 x35)
  then have "Some (InternalNode x31 x32 x33 x34 x35) \<in> set cs"
    by (metis not_le nth_mem)
  from internal_count_child[OF this] show ?case by simp
qed

text \<open>
  Modelled from the spec: \<^verbatim>\<open>Get\<close> (4.C) descends by the slots of the key and fails with
  \<^verbatim>\<open>errValueNotPresent\<close> at an empty slot or at a leaf with another key, and at a hashed
  node because the subtree is opaque.
\<close>

function Get :: "VerkleNode \<Rightarrow> bytes \<Rightarrow> error + bytes" where
  "Get (InternalNode cs d cm hs tc) key =
     (let i = child_index key d (width tc) in
      if length cs \<le> i then Inl PanicIndexOutOfRange
      else
        (case cs ! i of
           None \<Rightarrow> Inl ErrValueNotPresent
         | Some child \<Rightarrow> Get child key))"
| "Get (LeafNode k v) key = (if k = key then Inr v else Inl ErrValueNotPresent)"
| "Get (HashedNode h) key = Inl ErrOpaque"
  by pat_completeness auto
termination
proof (relation "measure (\<lambda>(n, k). size n)", goal_cases)
  case 1
  show ?case by simp
next
  case (2 cs d cm hs tc key x x2)
  then have "Some x2 \<in> set cs" by (metis not_le nth_mem)
  then have "size x2 < size (InternalNode cs d cm hs tc)"
    by (simp add: less_Suc_eq_le size_list_estimation')
  then show ?case by simp
qed

fun insert_all :: "VerkleNode \<Rightarrow> (bytes \<times> bytes) list \<Rightarrow> error + VerkleNode" where
  "insert_all n [] = Inr n"
| "insert_all n ((k, v) # kvs) =
     (case Insert n k v of Inl err \<Rightarrow> Inl err | Inr n' \<Rightarrow> insert_all n' kvs)"

definition bits_val :: "bool list \<Rightarrow> nat" where
  "bits_val bs = foldl (\<lambda>acc b. 2 * acc + of_bool b) 0 bs"

lemma bits_val_snoc: "bits_val (bs @ [b]) = 2 * bits_val bs + of_bool b"
  by (simp add: bits_val_def)

lemma bits_val_less: "bits_val bs < 2 ^ length bs"
proof (induction bs rule: rev_induct)
  case Nil
  then show ?case by (simp add: bits_val_def)
next
  case (snoc b bs)
  then show ?case by (cases b) (simp_all add: bits_val_snoc)
qed

lemma bits_val_inj:
  "length xs = length ys \<Longrightarrow> bits_val xs = bits_val ys \<Longrightarrow> xs = ys"
proof (induction xs arbitrary: ys rule: rev_induct)
  case Nil
  then show ?case by simp
next
  case (snoc x xs)
  then obtain y ys' where ys: "ys = ys' @ [y]"
    by (cases ys rule: rev_cases) auto
  with snoc.prems have eq: "2 * bits_val xs + of_bool x = 2 * bits_val ys' + (of_bool y :: nat)"
    by (simp add: bits_val_snoc)
  then have "x = y" by (cases x; cases y) (simp_all, presburger+)
  with eq have "bits_val xs = bits_val ys'" by simp
  with snoc.IH[of ys'] snoc.prems ys \<open>x = y\<close> show ?case by simp
qed

lemma child_index_bits:
  "child_index key d w = bits_val (map (\<lambda>j. key_bit key (d * w + j)) [0..<w])"
  by (simp add: child_index_def bits_val_def foldl_map)

lemma child_index_less: "child_index key d w < 2 ^ w"
  using bits_val_less[of "map (\<lambda>j. key_bit key (d * w + j)) [0..<w]"]
  by (simp add: child_index_bits)

lemma child_index_eq_bits:
  assumes "child_index k d w = child_index k' d w" and "j < w"
  shows "key_bit k (d * w + j) = key_bit k' (d * w + j)"
proof -
  have "map (\<lambda>j. key_bit k (d * w + j)) [0..<w] = map (\<lambda>j. key_bit k' (d * w + j)) [0..<w]"
    using assms(1) by (intro bits_val_inj) (simp_all add: child_index_bits)
  then show ?thesis using assms(2) by (simp add: map_eq_conv)
qed

lemma maxDepth_covers: "0 < w \<Longrightarrow> 256 \<le> maxDepth w * w"
proof -
  assume w: "0 < w"
  define n where "n = 256 + w - 1"
  have "n = n div w * w + n mod w" by (simp only: div_mult_mod_eq)
  moreover have "n mod w < w" using w by simp
  moreover have "n = 255 + w" using w by (simp add: n_def)
  ultimately have "256 \<le> n div w * w" by linarith
  then show ?thesis by (simp add: maxDepth_def n_def)
qed

lemma keys_equal:
  assumes w: "0 < w" and len: "length k = 32" "length k' = 32"
    and same: "\<forall>j < maxDepth w. child_index k j w = child_index k' j w"
  shows "k = k'"
proof (rule nth_equalityI)
  show "length k = length k'" using len by simp
next
  fix b assume "b < length k"
  then have b: "b < 32" using len by simp
  have bits: "key_bit k q = key_bit k' q" if "q < 256" for q
  proof -
    have "q < maxDepth w * w" using that maxDepth_covers[OF w] by simp
    then have "q div w < maxDepth w" using w by (simp add: less_mult_imp_div_less)
    then have "child_index k (q div w) w = child_index k' (q div w) w" using same by simp
    from child_index_eq_bits[OF this, of "q mod w"] w show ?thesis by simp
  qed
  show "k ! b = k' ! b"
  proof (rule bit_word_eqI)
    fix t assume "t < LENGTH(8)"
    then have t: "t < 8" by simp
    define r where "r = 7 - t"
    have r: "r < 8" and tr: "t = 7 - r" using t by (simp_all add: r_def)
    have q: "8 * b + r < 256" using b r by simp
    have "(8 * b + r) div 8 = b" and "(8 * b + r) mod 8 = r" using r by simp_all
    with bits[OF q] q len tr show "bit (k ! b) t = bit (k' ! b) t"
      by (simp add: key_bit_def)
  qed
qed

subsection \<open>Trees built by insertion\<close>

text \<open>
  \<open>keys_of n\<close> are the keys of the leaves of \<open>n\<close>. \<open>wf_node w p n\<close>: the node \<open>n\<close> sits at
  the end of the path \<open>p\<close> of slots from the root of a tree of width \<open>w\<close>; every leaf
  below has a key of 32 bytes whose slots down to the leaf are those of its path, there
  is no hashed node, no cached commitment or hash, and every occupied slot holds a
  subtree with at least one leaf.
\<close>

fun keys_of :: "VerkleNode \<Rightarrow> bytes set" where
  "keys_of (LeafNode k v) = {k}"
| "keys_of (HashedNode h) = {}"
| "keys_of (InternalNode cs d cm hs tc) =
     (\<Union>c \<in> set cs. case c of None \<Rightarrow> {} | Some n \<Rightarrow> keys_of n)"

definition slot_keys :: "VerkleNode option \<Rightarrow> bytes set" where
  "slot_keys c = (case c of None \<Rightarrow> {} | Some n \<Rightarrow> keys_of n)"

definition follows :: "nat \<Rightarrow> bytes \<Rightarrow> nat list \<Rightarrow> bool" where
  "follows w k p = (\<forall>j < length p. child_index k j w = p ! j)"

inductive wf_node :: "nat \<Rightarrow> nat list \<Rightarrow> VerkleNode \<Rightarrow> bool" for w :: nat where
  wf_leaf: "length k = 32 \<Longrightarrow> follows w k p \<Longrightarrow> wf_node w p (LeafNode k v)"
| wf_internal:
    "width tc = w \<Longrightarrow> nodeWidth tc = 2 ^ w \<Longrightarrow> length cs = 2 ^ w \<Longrightarrow> d = length p \<Longrightarrow>
     (\<forall>i c. i < length cs \<longrightarrow> cs ! i = Some c \<longrightarrow>
        wf_node w (p @ [i]) c \<and> keys_of c \<noteq> {}) \<Longrightarrow>
     wf_node w p (InternalNode cs d None None tc)"

inductive_cases wf_leafE: "wf_node w p (LeafNode k v)"
inductive_cases wf_hashedE: "wf_node w p (HashedNode h)"
inductive_cases wf_internalE: "wf_node w p (InternalNode cs d cm hs tc)"

lemma follows_snoc:
  "follows w k (p @ [i]) \<longleftrightarrow> follows w k p \<and> child_index k (length p) w = i"
  by (auto simp: follows_def nth_append less_Suc_eq)

lemma Get_update:
  assumes "i < length cs"
  shows "Get (InternalNode (cs[i := Some c]) d cm' hs' tc) k' =
           (if child_index k' d (width tc) = i then Get c k'
            else Get (InternalNode cs d cm hs tc) k')"
  using assms by (simp add: Let_def)

lemma keys_of_nth:
  "keys_of (InternalNode cs d cm hs tc) = (\<Union>j \<in> {..<length cs}. slot_keys (cs ! j))"
  by (auto simp: slot_keys_def set_conv_nth)

lemma keys_of_update:
  assumes "i < length cs" and "keys_of c' = insert key (slot_keys (cs ! i))"
  shows "keys_of (InternalNode (cs[i := Some c']) d' cm' hs' tc') =
           insert key (keys_of (InternalNode cs d cm hs tc))"
proof -
  have "(\<Union>j \<in> {..<length cs}. slot_keys (cs[i := Some c'] ! j)) =
      insert key (\<Union>j \<in> {..<length cs}. slot_keys (cs ! j))"
  proof (rule set_eqI)
    fix x
    show "x \<in> (\<Union>j \<in> {..<length cs}. slot_keys (cs[i := Some c'] ! j)) \<longleftrightarrow>
        x \<in> insert key (\<Union>j \<in> {..<length cs}. slot_keys (cs ! j))"
    proof
      assume "x \<in> (\<Union>j \<in> {..<length cs}. slot_keys (cs[i := Some c'] ! j))"
      then obtain j where j: "j < length cs" "x \<in> slot_keys (cs[i := Some c'] ! j)" by auto
      show "x \<in> insert key (\<Union>j \<in> {..<length cs}. slot_keys (cs ! j))"
      proof (cases "j = i")
        case True
        with j assms have "x \<in> insert key (slot_keys (cs ! i))"
          by (simp add: slot_keys_def)
        with assms(1) show ?thesis by auto
      next
        case False
        with j show ?thesis by auto
      qed
    next
      assume "x \<in> insert key (\<Union>j \<in> {..<length cs}. slot_keys (cs ! j))"
      then consider "x = key" | j where "j < length cs" "x \<in> slot_keys (cs ! j)" by auto
      then show "x \<in> (\<Union>j \<in> {..<length cs}. slot_keys (cs[i := Some c'] ! j))"
      proof cases
        case 1
        have "x \<in> slot_keys (cs[i := Some c'] ! i)"
          using 1 assms by (simp add: slot_keys_def)
        with assms(1) show ?thesis by blast
      next
        case 2
        show ?thesis
        proof (cases "j = i")
          case True
          with 2 assms have "x \<in> slot_keys (cs[i := Some c'] ! i)"
            by (simp add: slot_keys_def)
          with assms(1) show ?thesis by blast
        next
          case False
          with 2 have "x \<in> slot_keys (cs[i := Some c'] ! j)" by simp
          with 2(1) show ?thesis by blast
        qed
      qed
    qed
  qed
  then show ?thesis by (simp only: keys_of_nth length_list_update)
qed

lemma wf_update:
  assumes "wf_node w p (InternalNode cs d cm hs tc)" and "i < length cs"
    and "wf_node w (p @ [i]) c" and "keys_of c \<noteq> {}"
  shows "wf_node w p (InternalNode (cs[i := Some c]) d None None tc)"
proof -
  from assms(1) have tc: "width tc = w" "nodeWidth tc = 2 ^ w" "length cs = 2 ^ w" "d = length p"
    and ch: "\<forall>i c. i < length cs \<longrightarrow> cs ! i = Some c \<longrightarrow>
        wf_node w (p @ [i]) c \<and> keys_of c \<noteq> {}"
    by (auto elim: wf_internalE)
  show ?thesis
  proof (rule wf_internal)
    show "\<forall>j c'. j < length (cs[i := Some c]) \<longrightarrow> cs[i := Some c] ! j = Some c' \<longrightarrow>
        wf_node w (p @ [j]) c' \<and> keys_of c' \<noteq> {}"
      using ch assms(2,3,4) by (auto simp: nth_list_update)
  qed (use tc in simp_all)
qed

lemma wf_branch_with_leaf:
  assumes "width tc = w" and "nodeWidth tc = 2 ^ w" and "length k = 32"
    and "follows w k p" and "d = length p"
  shows "wf_node w p (branch_with_leaf d tc k v)"
  unfolding branch_with_leaf_def
proof (rule wf_internal)
  let ?i = "child_index k d (width tc)"
  show "\<forall>i c. i < length ((replicate (nodeWidth tc) None)[?i := Some (LeafNode k v)]) \<longrightarrow>
      (replicate (nodeWidth tc) None)[?i := Some (LeafNode k v)] ! i = Some c \<longrightarrow>
      wf_node w (p @ [i]) c \<and> keys_of c \<noteq> {}"
  proof (intro allI impI)
    fix i c
    assume i: "i < length ((replicate (nodeWidth tc) None)[?i := Some (LeafNode k v)])"
      and c: "(replicate (nodeWidth tc) None)[?i := Some (LeafNode k v)] ! i = Some c"
    then have "i = ?i \<and> c = LeafNode k v"
      by (cases "i = ?i") (simp_all add: nth_list_update)
    then show "wf_node w (p @ [i]) c \<and> keys_of c \<noteq> {}"
      using assms by (auto intro!: wf_leaf simp: follows_snoc)
  qed
qed (use assms in simp_all)

lemma keys_of_branch_with_leaf:
  assumes "nodeWidth tc = 2 ^ width tc"
  shows "keys_of (branch_with_leaf d tc k v) = {k}"
proof -
  let ?cs = "replicate (nodeWidth tc) (None :: VerkleNode option)"
  have i: "child_index k d (width tc) < length ?cs"
    using child_index_less[of k d "width tc"] assms by simp
  then have "slot_keys (?cs ! child_index k d (width tc)) = {}"
    by (simp add: slot_keys_def)
  then have "keys_of (LeafNode k v) = insert k (slot_keys (?cs ! child_index k d (width tc)))"
    by simp
  from keys_of_update[OF i this, of d None None tc d None None tc]
  have "keys_of (branch_with_leaf d tc k v) = insert k (keys_of (InternalNode ?cs d None None tc))"
    by (simp only: branch_with_leaf_def)
  moreover have "keys_of (InternalNode ?cs d None None tc) = {}" by auto
  ultimately show ?thesis by simp
qed

lemma Get_branch_with_leaf:
  assumes "nodeWidth tc = 2 ^ width tc"
  shows "Get (branch_with_leaf d tc k v) k' = (if k = k' then Inr v else Inl ErrValueNotPresent)"
proof -
  have "child_index k d (width tc) < nodeWidth tc" "child_index k' d (width tc) < nodeWidth tc"
    using child_index_less assms by simp_all
  then show ?thesis
    by (auto simp: branch_with_leaf_def Let_def nth_list_update)
qed

fun is_internal :: "VerkleNode \<Rightarrow> bool" where
  "is_internal (InternalNode cs d cm hs tc) = True"
| "is_internal _ = False"

lemma follows_depth:
  assumes "follows w k p" and "follows w k' p" and "maxDepth w \<le> length p"
  shows "\<forall>j < maxDepth w. child_index k j w = child_index k' j w"
  using assms by (auto simp: follows_def)

lemma Insert_correct:
  assumes "wf_node w p n" and "is_internal n" and "follows w key p" and "length key = 32"
    and "0 < w"
  shows "\<exists>n'. Insert n key val = Inr n' \<and> wf_node w p n' \<and> is_internal n' \<and>
           Get n' key = Inr val \<and> (\<forall>k'. k' \<noteq> key \<longrightarrow> Get n' k' = Get n k') \<and>
           keys_of n' = insert key (keys_of n)"
  using assms
proof (induction n key val arbitrary: p rule: Insert.induct)
  case (1 cs d cm hs tc key val)
  let ?n = "InternalNode cs d cm hs tc"
  let ?i = "child_index key d (width tc)"
  from "1.prems"(1) have tc: "width tc = w" "nodeWidth tc = 2 ^ w" "length cs = 2 ^ w" "d = length p"
    and ch: "\<forall>i c. i < length cs \<longrightarrow> cs ! i = Some c \<longrightarrow>
        wf_node w (p @ [i]) c \<and> keys_of c \<noteq> {}"
    by (auto elim: wf_internalE)
  have i: "?i < length cs" using child_index_less[of key d w] tc by simp
  have fk: "follows w key (p @ [?i])" using "1.prems"(3) tc by (simp add: follows_snoc)
  show ?case
  proof (cases "cs ! ?i")
    case None
    let ?n' = "InternalNode (cs[?i := Some (LeafNode key val)]) d None None tc"
    have ins: "Insert ?n key val = Inr ?n'" using i None by (simp add: Let_def)
    have wf: "wf_node w p ?n'"
      using wf_update[OF "1.prems"(1) i wf_leaf[OF "1.prems"(4) fk]] by simp
    have g: "Get ?n' k' = (if child_index k' d (width tc) = ?i then Get (LeafNode key val) k'
        else Get ?n k')" for k'
      by (rule Get_update[OF i])
    have ks: "keys_of ?n' = insert key (keys_of ?n)"
      by (rule keys_of_update[OF i]) (simp add: None slot_keys_def)
    have "Get ?n' key = Inr val" using g[of key] by simp
    moreover have "Get ?n' k' = Get ?n k'" if "k' \<noteq> key" for k'
      using g[of k'] that None i by (auto simp: Let_def)
    ultimately show ?thesis using ins wf ks by auto
  next
    case (Some c)
    have wfc: "wf_node w (p @ [?i]) c" using ch i Some by blast
    have sk: "slot_keys (cs ! ?i) = keys_of c" using Some by (simp add: slot_keys_def)
    show ?thesis
    proof (cases c)
      case (LeafNode k v)
      have lk: "length k = 32" and fl: "follows w k (p @ [?i])"
        using wfc LeafNode by (auto elim: wf_leafE)
      show ?thesis
      proof (cases "k = key")
        case True
        let ?n' = "InternalNode (cs[?i := Some (LeafNode k val)]) d None None tc"
        have ins: "Insert ?n key val = Inr ?n'"
          using i Some LeafNode True by (simp add: Let_def)
        have wf: "wf_node w p ?n'"
          using wf_update[OF "1.prems"(1) i wf_leaf[OF lk fl]] by simp
        have g: "Get ?n' k' = (if child_index k' d (width tc) = ?i then Get (LeafNode k val) k'
            else Get ?n k')" for k'
          by (rule Get_update[OF i])
        have ks: "keys_of ?n' = insert key (keys_of ?n)"
          by (rule keys_of_update[OF i]) (simp add: sk LeafNode True)
        have "Get ?n' key = Inr val" using g[of key] True by simp
        moreover have "Get ?n' k' = Get ?n k'" if "k' \<noteq> key" for k'
          using g[of k'] that Some LeafNode True i by (auto simp: Let_def)
        ultimately show ?thesis using ins wf ks by auto
      next
        case False
        have depth: "\<not> d + 1 > maxDepth (width tc)"
        proof
          assume "d + 1 > maxDepth (width tc)"
          then have "maxDepth w \<le> length (p @ [?i])" using tc by simp
          from follows_depth[OF fl fk this] have "k = key"
            using keys_equal[OF "1.prems"(5) lk "1.prems"(4)] by blast
          with False show False by simp
        qed
        let ?b = "branch_with_leaf (d + 1) tc k v"
        have wfb: "wf_node w (p @ [?i]) ?b"
          using wf_branch_with_leaf[OF tc(1,2) lk fl] tc(4) by simp
        have ib: "is_internal ?b" by (simp add: branch_with_leaf_def)
        from "1.IH"(1)[OF refl _ Some LeafNode False depth wfb ib fk "1.prems"(4,5)] i
        obtain b' where b': "Insert ?b key val = Inr b'" "wf_node w (p @ [?i]) b'"
          "Get b' key = Inr val" "\<forall>k'. k' \<noteq> key \<longrightarrow> Get b' k' = Get ?b k'"
          "keys_of b' = insert key (keys_of ?b)"
          by auto
        have kb: "keys_of ?b = {k}" using keys_of_branch_with_leaf[of tc "d + 1" k v] tc by simp
        let ?n' = "InternalNode (cs[?i := Some b']) d None None tc"
        have ins: "Insert ?n key val = Inr ?n'"
          using i Some LeafNode False depth b'(1) by (simp add: Let_def)
        have wf: "wf_node w p ?n'" using wf_update[OF "1.prems"(1) i b'(2)] b'(5) by simp
        have g: "Get ?n' k' = (if child_index k' d (width tc) = ?i then Get b' k'
            else Get ?n k')" for k'
          by (rule Get_update[OF i])
        have ks: "keys_of ?n' = insert key (keys_of ?n)"
          by (rule keys_of_update[OF i]) (use kb in \<open>simp add: sk LeafNode b'(5)\<close>)
        have gb: "Get ?b k' = (if k = k' then Inr v else Inl ErrValueNotPresent)" for k'
          using Get_branch_with_leaf[of tc "d + 1" k v k'] tc by simp
        have "Get ?n' key = Inr val" using g[of key] b'(3) by simp
        moreover have "Get ?n' k' = Get ?n k'" if "k' \<noteq> key" for k'
          using g[of k'] that b'(4) gb[of k'] Some LeafNode i by (auto simp: Let_def)
        ultimately show ?thesis using ins wf ks by auto
      qed
    next
      case (HashedNode h)
      with wfc show ?thesis by (auto elim: wf_hashedE)
    next
      case (InternalNode cs' d' cm' hs' tc')
      have ic: "is_internal c" using InternalNode by simp
      from "1.IH"(2)[OF refl _ Some InternalNode, of "p @ [?i]"] i wfc ic fk "1.prems"(4,5) InternalNode
      obtain c' where c': "Insert c key val = Inr c'" "wf_node w (p @ [?i]) c'"
        "Get c' key = Inr val" "\<forall>k'. k' \<noteq> key \<longrightarrow> Get c' k' = Get c k'"
        "keys_of c' = insert key (keys_of c)"
        by auto
      let ?n' = "InternalNode (cs[?i := Some c']) d None None tc"
      have ins: "Insert ?n key val = Inr ?n'"
        using i Some InternalNode c'(1) by (simp add: Let_def)
      have wf: "wf_node w p ?n'" using wf_update[OF "1.prems"(1) i c'(2)] c'(5) by simp
      have g: "Get ?n' k' = (if child_index k' d (width tc) = ?i then Get c' k'
          else Get ?n k')" for k'
        by (rule Get_update[OF i])
      have ks: "keys_of ?n' = insert key (keys_of ?n)"
        by (rule keys_of_update[OF i]) (simp add: sk c'(5))
      have "Get ?n' key = Inr val" using g[of key] c'(3) by simp
      moreover have "Get ?n' k' = Get ?n k'" if "k' \<noteq> key" for k'
        using g[of k'] that c'(4) Some i by (auto simp: Let_def)
      ultimately show ?thesis using ins wf ks by auto
    qed
  qed
next
  case (2 k v key val)
  then show ?case by simp
next
  case (3 h key val)
  then show ?case by simp
qed

lemma wf_New: "wf_node w [] (New w)"
  unfolding New_def newInternalNode_def
  by (rule wf_internal) (simp_all add: GetTreeConfig_def)

lemma Get_New: "Get (New w) key = Inl ErrValueNotPresent"
  using child_index_less[of key 0 w]
  by (simp add: New_def newInternalNode_def GetTreeConfig_def Let_def)

lemma insert_all_append:
  "insert_all n (kvs @ [(k, v)]) =
     (case insert_all n kvs of Inl err \<Rightarrow> Inl err | Inr n' \<Rightarrow> Insert n' k v)"
  by (induction n kvs rule: insert_all.induct) (auto split: sum.splits)

lemma insert_all_correct:
  assumes "0 < w" and "\<forall>kv \<in> set kvs. length (fst kv) = 32"
  shows "\<exists>t. insert_all (New w) kvs = Inr t \<and> wf_node w [] t \<and> is_internal t \<and>
           keys_of t = set (map fst kvs) \<and>
           (\<forall>key. Get t key =
              (case map_of (rev kvs) key of None \<Rightarrow> Inl ErrValueNotPresent | Some v \<Rightarrow> Inr v))"
  using assms(2)
proof (induction kvs rule: rev_induct)
  case Nil
  have "keys_of (New w) = {}" by (auto simp: New_def newInternalNode_def)
  then show ?case using wf_New[of w] Get_New[of w]
    by (simp add: New_def newInternalNode_def)
next
  case (snoc kv kvs)
  obtain k v where kv: "kv = (k, v)" by (cases kv)
  from snoc obtain t where t: "insert_all (New w) kvs = Inr t" "wf_node w [] t" "is_internal t"
      "keys_of t = set (map fst kvs)"
    and g: "\<forall>key. Get t key =
        (case map_of (rev kvs) key of None \<Rightarrow> Inl ErrValueNotPresent | Some v \<Rightarrow> Inr v)"
    by auto
  have lk: "length k = 32" using snoc.prems kv by simp
  have fk: "follows w k []" by (simp add: follows_def)
  from Insert_correct[OF t(2,3) fk lk assms(1), of v]
  obtain t' where t': "Insert t k v = Inr t'" "wf_node w [] t'" "is_internal t'"
    "Get t' k = Inr v" "\<forall>k'. k' \<noteq> k \<longrightarrow> Get t' k' = Get t k'"
    "keys_of t' = insert k (keys_of t)"
    by blast
  have "insert_all (New w) (kvs @ [kv]) = Inr t'"
    using t(1) t'(1) by (simp add: kv insert_all_append)
  moreover have "Get t' key =
      (case map_of (rev (kvs @ [kv])) key of None \<Rightarrow> Inl ErrValueNotPresent | Some v \<Rightarrow> Inr v)" for key
    using t'(4,5) g by (cases "key = k") (simp_all add: kv)
  moreover have "keys_of t' = set (map fst (kvs @ [kv]))"
    using t'(6) t(4) by (simp add: kv)
  ultimately show ?case using t'(2,3) by blast
qed

text \<open>
  Claim C6. After any sequence of insertions of pairs with 32-byte keys into a new tree
  (every insertion succeeds), \<^verbatim>\<open>Get\<close> with a 32-byte key returns the value of the last
  insertion for this key, and fails with \<^verbatim>\<open>errValueNotPresent\<close> when there was none.
\<close>

theorem Get_returns_last_inserted:
  assumes "0 < w" and "\<forall>kv \<in> set kvs. length (fst kv) = 32" and "length key = 32"
  shows "\<exists>t. insert_all (New w) kvs = Inr t \<and>
           Get t key =
             (case map_of (rev kvs) key of None \<Rightarrow> Inl ErrValueNotPresent | Some v \<Rightarrow> Inr v)"
  using insert_all_correct[OF assms(1,2)] by blast

text \<open>The two lookups of \<^verbatim>\<open>TestGetTwoLeaves\<close>.\<close>

theorem Get_returns_last_inserted_witness:
  "(\<exists>t. insert_all (New 10) [(zeroKeyTest, testValue), (ffx32KeyTest, testValue)] = Inr t \<and>
        Get t zeroKeyTest = Inr testValue) \<and>
   (\<exists>t. insert_all (New 10) [(zeroKeyTest, testValue), (ffx32KeyTest, testValue)] = Inr t \<and>
        Get t oneKeyTest = Inl ErrValueNotPresent)"
proof -
  let ?kvs = "[(zeroKeyTest, testValue), (ffx32KeyTest, testValue)]"
  have w: "0 < (10::nat)" by simp
  have len: "\<forall>kv \<in> set ?kvs. length (fst kv) = 32"
    by (simp add: zeroKeyTest_def ffx32KeyTest_def)
  have l0: "length zeroKeyTest = 32" by (simp add: zeroKeyTest_def)
  have l1: "length oneKeyTest = 32" by (simp add: oneKeyTest_def)
  have m0: "map_of (rev ?kvs) zeroKeyTest = Some testValue"
    by code_simp
  have m1: "map_of (rev ?kvs) oneKeyTest = None"
    by code_simp
  from Get_returns_last_inserted[OF w len l0] m0
  have a: "\<exists>t. insert_all (New 10) ?kvs = Inr t \<and> Get t zeroKeyTest = Inr testValue"
    by simp
  from Get_returns_last_inserted[OF w len l1] m1
  have b: "\<exists>t. insert_all (New 10) ?kvs = Inr t \<and> Get t oneKeyTest = Inl ErrValueNotPresent"
    by simp
  from a b show ?thesis by (rule conjI)
qed

section \<open>Keys in increasing order\<close>

text \<open>
  \<open>bytes_less\<close> is the byte-wise order of keys (that of \<^verbatim>\<open>bytes.Compare\<close>). For keys of
  equal length it is the order of the big-endian numbers, and the slots of a key are
  the digits of that number in base \<open>2 ^ w\<close>: of two keys that share their slots above a
  level, the smaller key has the smaller or the same slot at that level.
\<close>

fun bytes_less :: "bytes \<Rightarrow> bytes \<Rightarrow> bool" where
  "bytes_less [] [] = False"
| "bytes_less [] (y # ys) = True"
| "bytes_less (x # xs) [] = False"
| "bytes_less (x # xs) (y # ys) = (x < y \<or> (x = y \<and> bytes_less xs ys))"

lemma be_uint_foldl:
  "foldl (\<lambda>s b. s * 256 + unat b) acc xs =
     acc * 256 ^ length xs + foldl (\<lambda>s (b::byte). s * 256 + unat b) 0 xs"
proof (induction xs arbitrary: acc)
  case Nil
  then show ?case by simp
next
  case (Cons x xs)
  show ?case
    by (simp only: foldl_Cons Cons.IH[of "acc * 256 + unat x"] Cons.IH[of "0 * 256 + unat x"])
      (simp add: algebra_simps)
qed

lemma be_uint_Cons: "be_uint (x # xs) = unat x * 256 ^ length xs + be_uint xs"
  using be_uint_foldl[of "unat x" xs] by (simp add: be_uint_def)

lemma be_uint_bound: "be_uint xs < 256 ^ length xs"
proof (induction xs)
  case Nil
  then show ?case by (simp add: be_uint_def)
next
  case (Cons x xs)
  have "unat x < 2 ^ LENGTH(8)" by (rule unsigned_less)
  then have "unat x \<le> 255" by simp
  then have "unat x * 256 ^ length xs \<le> 255 * 256 ^ length xs" by simp
  with Cons have "unat x * 256 ^ length xs + be_uint xs < 256 * 256 ^ length xs" by linarith
  then show ?case by (simp add: be_uint_Cons)
qed

lemma bytes_less_be_uint:
  "length a = length b \<Longrightarrow> bytes_less a b \<Longrightarrow> be_uint a < be_uint b"
proof (induction a b rule: bytes_less.induct)
  case (4 x xs y ys)
  from "4.prems"(1) have len: "length xs = length ys" by simp
  from "4.prems"(2) consider "x < y" | "x = y" "bytes_less xs ys" by auto
  then show ?case
  proof cases
    case 1
    then have "unat x + 1 \<le> unat y" by (simp add: word_less_nat_alt)
    then have "(unat x + 1) * 256 ^ length xs \<le> unat y * 256 ^ length xs"
      by (rule mult_le_mono1)
    moreover have "be_uint xs < 256 ^ length xs" by (rule be_uint_bound)
    ultimately show ?thesis by (simp add: be_uint_Cons len)
  next
    case 2
    with "4.IH" len show ?thesis by (simp add: be_uint_Cons)
  qed
qed simp_all

lemma bytes_less_irrefl: "\<not> bytes_less a a"
  by (induction a) auto

lemma bits_val_append:
  "bits_val (xs @ ys) = bits_val xs * 2 ^ length ys + bits_val ys"
proof (induction ys rule: rev_induct)
  case Nil
  then show ?case by (simp add: bits_val_def)
next
  case (snoc y ys)
  have "bits_val (xs @ ys @ [y]) = 2 * bits_val (xs @ ys) + of_bool y"
    using bits_val_snoc[of "xs @ ys" y] by simp
  then show ?case by (simp add: snoc.IH bits_val_snoc algebra_simps)
qed

lemma bits_val_zeros: "bits_val (replicate n False) = 0"
proof (induction n)
  case 0
  then show ?case by (simp add: bits_val_def)
next
  case (Suc n)
  have "bits_val ([False] @ replicate n False) =
      bits_val [False] * 2 ^ length (replicate n False) + bits_val (replicate n False)"
    by (rule bits_val_append)
  with Suc show ?case by (simp add: bits_val_def)
qed

definition prefix_val :: "bytes \<Rightarrow> nat \<Rightarrow> nat" where
  "prefix_val key m = bits_val (map (key_bit key) [0..<m])"

lemma child_index_chunk:
  "child_index key d w = bits_val (map (key_bit key) [d * w..<d * w + w])"
proof -
  have "map (\<lambda>j. key_bit key (d * w + j)) [0..<w] = map (key_bit key) [d * w..<d * w + w]"
  proof -
    have "map (key_bit key) [d * w..<d * w + w] =
        map (key_bit key) (map (\<lambda>i. i + d * w) [0..<w])"
      by (simp only: map_add_upt add.commute)
    then show ?thesis by (simp add: comp_def add.commute)
  qed
  then show ?thesis by (simp add: child_index_bits)
qed

lemma prefix_val_add:
  "prefix_val key (m + n) = prefix_val key m * 2 ^ n + bits_val (map (key_bit key) [m..<m + n])"
proof -
  have "[0..<m + n] = [0..<m] @ [m..<m + n]"
    using upt_add_eq_append[of 0 m n] by simp
  then show ?thesis by (simp add: prefix_val_def bits_val_append)
qed

lemma prefix_val_step:
  "prefix_val key (Suc d * w) = prefix_val key (d * w) * 2 ^ w + child_index key d w"
proof -
  have "Suc d * w = d * w + w" by simp
  then show ?thesis
    using prefix_val_add[of key "d * w" w] by (simp only: child_index_chunk)
qed

lemma prefix_val_follows:
  assumes "\<forall>j < d. child_index k j w = child_index k' j w"
  shows "prefix_val k (d * w) = prefix_val k' (d * w)"
  using assms
proof (induction d)
  case 0
  then show ?case by (simp add: prefix_val_def)
next
  case (Suc d)
  from Suc.prems have a: "\<forall>j < d. child_index k j w = child_index k' j w"
    and b: "child_index k d w = child_index k' d w"
    by simp_all
  from Suc.IH[OF a] b show ?case by (simp only: prefix_val_step)
qed

lemma bits_val_horner: "bits_val xs = horner_sum of_bool 2 (rev xs)"
  by (induction xs rule: rev_induct) (simp_all add: bits_val_snoc, simp add: bits_val_def)

lemma byte_bits_val: "bits_val (map (\<lambda>t. bit (b::byte) (7 - t)) [0..<8]) = unat b"
proof -
  have "rev (map (\<lambda>t. bit b (7 - t)) [0..<8]) = map (bit (unat b)) [0..<8]"
    by (simp add: upt_rec bit_unsigned_iff eval_nat_numeral)
  then have "bits_val (map (\<lambda>t. bit b (7 - t)) [0..<8]) = take_bit 8 (unat b)"
    by (simp only: bits_val_horner horner_sum_bit_eq_take_bit)
  also have "\<dots> = unat b"
  proof -
    have "unat b < 2 ^ LENGTH(8)" by (rule unsigned_less)
    then show ?thesis by (simp add: take_bit_nat_eq_self)
  qed
  finally show ?thesis .
qed

lemma be_uint_snoc: "be_uint (xs @ [b]) = be_uint xs * 256 + unat b"
  by (simp add: be_uint_def)

lemma key_bits_snoc_old:
  "map (key_bit (ks @ [b])) [0..<8 * length ks] = map (key_bit ks) [0..<8 * length ks]"
proof (rule map_cong[OF refl])
  fix p assume "p \<in> set [0..<8 * length ks]"
  then have "p < 8 * length ks" and "p div 8 < length ks" by auto
  then show "key_bit (ks @ [b]) p = key_bit ks p"
    by (simp add: key_bit_def nth_append)
qed

lemma key_bits_snoc_new:
  "map (key_bit (ks @ [b])) [8 * length ks..<8 * length ks + 8] = map (\<lambda>t. bit b (7 - t)) [0..<8]"
proof -
  have "map (key_bit (ks @ [b])) [8 * length ks..<8 * length ks + 8] =
      map (key_bit (ks @ [b])) (map (\<lambda>t. t + 8 * length ks) [0..<8])"
    by (simp only: map_add_upt add.commute)
  also have "\<dots> = map (\<lambda>t. key_bit (ks @ [b]) (8 * length ks + t)) [0..<8]"
    by (simp add: comp_def add.commute)
  also have "\<dots> = map (\<lambda>t. bit b (7 - t)) [0..<8]"
  proof (rule map_cong[OF refl])
    fix t assume "t \<in> set [0..<8]"
    then have t: "t < 8" by simp
    then have "(8 * length ks + t) div 8 = length ks" and "(8 * length ks + t) mod 8 = t"
      by simp_all
    then show "key_bit (ks @ [b]) (8 * length ks + t) = bit b (7 - t)"
      using t by (simp add: key_bit_def)
  qed
  finally show ?thesis .
qed

lemma prefix_val_key: "prefix_val key (8 * length key) = be_uint key"
proof (induction key rule: rev_induct)
  case Nil
  then show ?case by (simp add: prefix_val_def bits_val_def be_uint_def)
next
  case (snoc b ks)
  have "prefix_val (ks @ [b]) (8 * length ks + 8) =
      prefix_val (ks @ [b]) (8 * length ks) * 2 ^ 8 +
        bits_val (map (key_bit (ks @ [b])) [8 * length ks..<8 * length ks + 8])"
    by (rule prefix_val_add)
  also have "prefix_val (ks @ [b]) (8 * length ks) = prefix_val ks (8 * length ks)"
    by (simp only: prefix_val_def key_bits_snoc_old)
  finally have "prefix_val (ks @ [b]) (8 * length ks + 8) = be_uint ks * 256 + unat b"
    by (simp only: snoc.IH key_bits_snoc_new byte_bits_val) simp
  moreover have "8 * length (ks @ [b]) = 8 * length ks + 8" by simp
  ultimately show ?case by (simp only: be_uint_snoc)
qed

lemma prefix_val_pad:
  "prefix_val key (8 * length key + n) = be_uint key * 2 ^ n"
proof -
  have "map (key_bit key) [8 * length key..<8 * length key + n] = replicate n False"
    by (rule nth_equalityI) (simp_all add: key_bit_def)
  then show ?thesis
    using prefix_val_add[of key "8 * length key" n]
    by (simp add: prefix_val_key bits_val_zeros)
qed

lemma child_index_mono:
  assumes w: "0 < w" and len: "length k' = 32" "length k = 32"
    and less: "bytes_less k' k"
    and same: "\<forall>j < d. child_index k' j w = child_index k j w"
  shows "child_index k' d w \<le> child_index k d w"
proof (cases "d < maxDepth w")
  case False
  then have "\<forall>j < maxDepth w. child_index k' j w = child_index k j w" using same by simp
  from keys_equal[OF w len this] less show ?thesis by (simp add: bytes_less_irrefl)
next
  case True
  define T where "T = maxDepth w * w"
  define rest where "rest = (maxDepth w - Suc d) * w"
  define A where "A = prefix_val k (d * w)"
  define X :: nat where "X = 2 ^ rest"
  have T256: "256 \<le> T" unfolding T_def by (rule maxDepth_covers[OF w])
  have P: "prefix_val x T = be_uint x * 2 ^ (T - 256)" if "length x = 32" for x
    using prefix_val_pad[of x "T - 256"] that T256 by simp
  have "be_uint k' < be_uint k" using bytes_less_be_uint[OF _ less] len by simp
  then have PP: "prefix_val k' T < prefix_val k T" by (simp add: P len)
  have Tsplit: "T = Suc d * w + rest"
  proof -
    have "maxDepth w = Suc d + (maxDepth w - Suc d)" using True by simp
    then have "maxDepth w * w = (Suc d + (maxDepth w - Suc d)) * w" by simp
    then show ?thesis unfolding T_def rest_def by (simp only: add_mult_distrib)
  qed
  have dec: "prefix_val x T = (prefix_val x (d * w) * 2 ^ w + child_index x d w) * X +
      bits_val (map (key_bit x) [Suc d * w..<Suc d * w + rest])" for x
    using prefix_val_add[of x "Suc d * w" rest] by (simp only: Tsplit prefix_val_step X_def)
  have tail: "bits_val (map (key_bit x) [Suc d * w..<Suc d * w + rest]) < X" for x
    using bits_val_less[of "map (key_bit x) [Suc d * w..<Suc d * w + rest]"] by (simp add: X_def)
  have pre: "prefix_val k' (d * w) = A" unfolding A_def by (rule prefix_val_follows[OF same])
  show ?thesis
  proof (rule ccontr)
    assume "\<not> child_index k' d w \<le> child_index k d w"
    then have "A * 2 ^ w + child_index k d w + 1 \<le> A * 2 ^ w + child_index k' d w" by simp
    then have "(A * 2 ^ w + child_index k d w + 1) * X \<le> (A * 2 ^ w + child_index k' d w) * X"
      by (rule mult_le_mono1)
    then have "(A * 2 ^ w + child_index k d w) * X + X \<le> (A * 2 ^ w + child_index k' d w) * X"
      by (simp add: add_mult_distrib)
    moreover have "prefix_val k T < (A * 2 ^ w + child_index k d w) * X + X"
      using dec[of k] tail[of k] by (simp add: A_def)
    moreover have "(A * 2 ^ w + child_index k' d w) * X \<le> prefix_val k' T"
      using dec[of k'] by (simp add: pre)
    ultimately show False using PP by linarith
  qed
qed

section \<open>Field elements\<close>

text \<open>
  Modelled from the spec: \<^verbatim>\<open>hashToFr\<close> is in \<^verbatim>\<open>tree.go\<close>, which is not among the sources;
  \<^verbatim>\<open>tree_test.go\<close> calls it, and \<^verbatim>\<open>bls.FrFrom32\<close> belongs to the curve library. The spec
  (4.D) has a hash reduced modulo the scalar field, and (6) a scalar type with a
  conversion from 32 bytes. A field element is its canonical representative, a natural
  number below the modulus. The modulus is the order of the scalar field of BLS12-381,
  \<^verbatim>\<open>0x73eda753299d7d483339d80809a1d80553bda402fffe5bfeffffffff00000001\<close>, and the 32 bytes
  are read least significant byte first, as the curve library does. \<^verbatim>\<open>FrFrom32\<close> is the
  canonical decoding: it accepts only a number below the modulus.
\<close>

definition le_uint :: "bytes \<Rightarrow> nat" where
  "le_uint bs = foldr (\<lambda>b acc. unat b + 256 * acc) bs 0"

definition BLS_MODULUS :: nat where
  "BLS_MODULUS = 52435875175126190479447740508185965837690552500527637822603658699938581184513"

definition hashToFr :: "bytes \<Rightarrow> Fr" where
  "hashToFr h = le_uint h mod BLS_MODULUS"

definition FrFrom32 :: "bytes \<Rightarrow> Fr option" where
  "FrFrom32 v = (if le_uint v < BLS_MODULUS then Some (le_uint v) else None)"

definition trailingZeroHash :: bytes where
  "trailingZeroHash =
     [0xc7, 0x9e, 0x57, 0x6e, 0x0f, 0x53, 0x4a, 0x5b, 0xbe, 0xd6, 0x6b, 0x32, 0xe5, 0x02, 0x2a, 0x9d,
      0x62, 0x4b, 0x44, 0x15, 0x77, 0x9b, 0x36, 0x9a, 0x62, 0xb2, 0xe7, 0xa6, 0xc3, 0xd8, 0xe0, 0x00]"

text \<open>
  Claim C8. The 32 bytes \<^verbatim>\<open>c79e576e0f534a5bbed66b32e5022a9d624b4415779b369a62b2e7a6c3d8e000\<close>,
  which end in a zero byte, are decoded by \<^verbatim>\<open>FrFrom32\<close>, and the field element is the one
  that \<^verbatim>\<open>hashToFr\<close> gives for them (\<^verbatim>\<open>TestHashToFrTrailingZeroBytes\<close>).
\<close>

theorem hashToFr_trailing_zero:
  "length trailingZeroHash = 32 \<and> FrFrom32 trailingZeroHash = Some (hashToFr trailingZeroHash)"
  by (simp add: FrFrom32_def hashToFr_def le_uint_def trailingZeroHash_def BLS_MODULUS_def)

section \<open>Commitments and ordered insertion\<close>

text \<open>
  Modelled from the spec: \<^verbatim>\<open>Hash\<close> and \<^verbatim>\<open>ComputeCommitment\<close> are in \<^verbatim>\<open>tree.go\<close>, which is
  not among the sources. SHA-256, the two multi-scalar multiplications over G1, the
  threshold between them and the Lagrange basis belong to the curve library and the
  trusted setup: they are the fields of \<open>Crypto\<close>, and nothing is assumed about them. A
  G1 point is its compressed form. By 4.D the scalar of an empty slot is 0, that of a
  leaf is the hash of key and value reduced to the field, that of a hashed node is the
  stored hash, and that of an internal node is the reduced hash of its commitment; the
  commitment is the linear combination of the Lagrange basis with these scalars, by
  the small-exponent variant when fewer than the threshold are not 0. A cached
  commitment or hash is returned as it is. The spec gives a commitment for an internal
  node only; \<^verbatim>\<open>ComputeCommitment\<close> has no result for the other two.
\<close>

record Crypto =
  sha256 :: "bytes \<Rightarrow> bytes"
  LinCombG1 :: "G1Point list \<Rightarrow> Fr list \<Rightarrow> G1Point"
  LinCombGBomb :: "G1Point list \<Rightarrow> Fr list \<Rightarrow> G1Point"
  multiExpThreshold :: nat
  lg1 :: "G1Point list"

definition FrTo32 :: "Fr \<Rightarrow> bytes" where
  "FrTo32 x = map (\<lambda>i. of_nat (x div 256 ^ i mod 256)) [0..<32]"

definition commit :: "Crypto \<Rightarrow> Fr list \<Rightarrow> G1Point" where
  "commit cr poly =
     (if length (filter (\<lambda>x. x \<noteq> 0) poly) < multiExpThreshold cr
      then LinCombGBomb cr (lg1 cr) poly
      else LinCombG1 cr (lg1 cr) poly)"

fun Hash :: "Crypto \<Rightarrow> VerkleNode \<Rightarrow> Fr" where
  "Hash cr (LeafNode k v) = hashToFr (sha256 cr (k @ v))"
| "Hash cr (HashedNode h) = hashToFr h"
| "Hash cr (InternalNode cs d cm hs tc) =
     (case hs of
        Some x \<Rightarrow> x
      | None \<Rightarrow>
          hashToFr (sha256 cr
            (case cm of
               Some c \<Rightarrow> c
             | None \<Rightarrow> commit cr (map (\<lambda>c. case c of None \<Rightarrow> 0 | Some n \<Rightarrow> Hash cr n) cs))))"

fun ComputeCommitment :: "Crypto \<Rightarrow> VerkleNode \<Rightarrow> G1Point option" where
  "ComputeCommitment cr (InternalNode cs d cm hs tc) =
     Some (case cm of
             Some c \<Rightarrow> c
           | None \<Rightarrow> commit cr (map (\<lambda>c. case c of None \<Rightarrow> 0 | Some n \<Rightarrow> Hash cr n) cs))"
| "ComputeCommitment cr (LeafNode k v) = None"
| "ComputeCommitment cr (HashedNode h) = None"

text \<open>
  Modelled from the spec: \<^verbatim>\<open>InsertOrdered\<close> (4.C) is in \<^verbatim>\<open>tree.go\<close> as well. It descends
  like \<^verbatim>\<open>Insert\<close>. When the key takes an empty slot, every occupied slot to the left is
  final and its child is replaced by a hashed node that stores the 32 bytes of the
  field-element hash of the child (\<open>condense\<close>). A key that is not greater than the last
  one is refused with \<^verbatim>\<open>KeyOutOfOrder\<close>: its slot has an occupied slot to the right, or
  holds a leaf with the same key. The setup and the Lagrange basis that the call takes
  are in \<open>Crypto\<close>.
\<close>

definition occupied_right :: "VerkleNode option list \<Rightarrow> nat \<Rightarrow> bool" where
  "occupied_right cs i = list_ex (\<lambda>c. c \<noteq> None) (drop (Suc i) cs)"

definition condense :: "Crypto \<Rightarrow> nat \<Rightarrow> VerkleNode option list \<Rightarrow> VerkleNode option list" where
  "condense cr i cs =
     map (\<lambda>c. case c of None \<Rightarrow> None | Some n \<Rightarrow> Some (HashedNode (FrTo32 (Hash cr n)))) (take i cs) @
     drop i cs"

function InsertOrdered :: "Crypto \<Rightarrow> VerkleNode \<Rightarrow> bytes \<Rightarrow> bytes \<Rightarrow> error + VerkleNode" where
  "InsertOrdered cr (InternalNode cs d cm hs tc) key val =
     (let i = child_index key d (width tc) in
      if length cs \<le> i then Inl PanicIndexOutOfRange
      else if occupied_right cs i then Inl ErrKeyOutOfOrder
      else
        (case cs ! i of
           None \<Rightarrow>
             Inr (InternalNode ((condense cr i cs)[i := Some (LeafNode key val)]) d None None tc)
         | Some (LeafNode k v) \<Rightarrow>
             if k = key then Inl ErrKeyOutOfOrder
             else if d + 1 > maxDepth (width tc) then Inl ErrDepthExceeded
             else
               (case InsertOrdered cr (branch_with_leaf (d + 1) tc k v) key val of
                  Inl err \<Rightarrow> Inl err
                | Inr branch \<Rightarrow> Inr (InternalNode (cs[i := Some branch]) d None None tc))
         | Some (InternalNode cs' d' cm' hs' tc') \<Rightarrow>
             (case InsertOrdered cr (InternalNode cs' d' cm' hs' tc') key val of
                Inl err \<Rightarrow> Inl err
              | Inr child \<Rightarrow> Inr (InternalNode (cs[i := Some child]) d None None tc))
         | Some (HashedNode h) \<Rightarrow> Inl ErrInsertIntoHash))"
| "InsertOrdered cr (LeafNode k v) key val = Inl ErrInsertIntoLeaf"
| "InsertOrdered cr (HashedNode h) key val = Inl ErrInsertIntoHash"
  by pat_completeness auto
termination
proof (relation "measures [\<lambda>(cr, n, k, v). internal_count n,
    \<lambda>(cr, n, k, v). Suc (maxDepth (node_width n)) - node_depth n]", goal_cases)
  case 1
  show ?case by simp
next
  case (2 cr cs d cm hs tc key val x x2 x11 x12)
  have ic: "internal_count (branch_with_leaf (d + 1) tc x11 x12) = 1"
    by (rule internal_count_branch)
  have nd: "node_depth (branch_with_leaf (d + 1) tc x11 x12) = d + 1"
    and nw: "node_width (branch_with_leaf (d + 1) tc x11 x12) = width tc"
    by (simp_all add: branch_with_leaf_def)
  have ge: "1 \<le> internal_count (InternalNode cs d cm hs tc)" by simp
  have "Suc (maxDepth (width tc)) - (d + 1) < Suc (maxDepth (width tc)) - d"
    using 2 by simp
  with ic nd nw ge show ?case
    by (simp only: in_measures prod.case node_depth.simps node_width.simps simp_thms) linarith
next
  case (3 cr cs d cm hs tc key val x x2 x31 x32 x33 x34 x35)
  then have "Some (InternalNode x31 x32 x33 x34 x35) \<in> set cs"
    by (metis not_le nth_mem)
  from internal_count_child[OF this] show ?case by simp
qed

fun insert_all_ordered :: "Crypto \<Rightarrow> VerkleNode \<Rightarrow> (bytes \<times> bytes) list \<Rightarrow> error + VerkleNode" where
  "insert_all_ordered cr n [] = Inr n"
| "insert_all_ordered cr n ((k, v) # kvs) =
     (case InsertOrdered cr n k v of
        Inl err \<Rightarrow> Inl err
      | Inr n' \<Rightarrow> insert_all_ordered cr n' kvs)"

lemma le_uint_Cons: "le_uint (b # bs) = unat b + 256 * le_uint bs"
  by (simp add: le_uint_def)

lemma le_uint_digits:
  "le_uint (map (\<lambda>i. of_nat (x div 256 ^ i mod 256) :: byte) [0..<n]) = x mod 256 ^ n"
proof (induction n arbitrary: x)
  case 0
  then show ?case by (simp add: le_uint_def)
next
  case (Suc n)
  have "map (\<lambda>i. of_nat (x div 256 ^ i mod 256) :: byte) [0..<Suc n] =
      of_nat (x mod 256) # map (\<lambda>i. of_nat (x div 256 div 256 ^ i mod 256)) [0..<n]"
    by (simp add: map_upt_Suc div_mult2_eq del: upt_Suc)
  moreover have "unat (of_nat (x mod 256) :: byte) = x mod 256"
    by (simp add: unat_of_nat_byte)
  ultimately show ?case
    using Suc.IH[of "x div 256"] by (simp add: le_uint_Cons mod_mult2_eq)
qed

lemma le_uint_FrTo32: "x < 2 ^ 256 \<Longrightarrow> le_uint (FrTo32 x) = x"
proof -
  assume "x < 2 ^ 256"
  moreover have "(256::nat) ^ 32 = 2 ^ 256" by simp
  ultimately show ?thesis
    unfolding FrTo32_def by (simp only: le_uint_digits mod_less)
qed

lemma hashToFr_less: "hashToFr h < BLS_MODULUS"
  by (simp add: hashToFr_def BLS_MODULUS_def)

lemma BLS_MODULUS_less: "BLS_MODULUS < 2 ^ 256"
  by (simp add: BLS_MODULUS_def)

lemma hashToFr_FrTo32: "x < BLS_MODULUS \<Longrightarrow> hashToFr (FrTo32 x) = x"
  using le_uint_FrTo32[of x] BLS_MODULUS_less by (simp add: hashToFr_def)

text \<open>
  \<open>sim cr a b\<close>: the tree \<open>a\<close> is the tree \<open>b\<close> with some subtrees replaced by hashed
  nodes that store their hashes. Both have the same hash, and as roots the same
  commitment.
\<close>

inductive sim :: "Crypto \<Rightarrow> VerkleNode \<Rightarrow> VerkleNode \<Rightarrow> bool" for cr :: Crypto where
  sim_leaf: "sim cr (LeafNode k v) (LeafNode k v)"
| sim_hashed: "Hash cr n < BLS_MODULUS \<Longrightarrow> sim cr (HashedNode (FrTo32 (Hash cr n))) n"
| sim_internal:
    "length cs = length cs' \<Longrightarrow>
     (\<forall>i < length cs. (cs ! i = None \<and> cs' ! i = None) \<or>
        (\<exists>a b. cs ! i = Some a \<and> cs' ! i = Some b \<and> sim cr a b \<and> Hash cr a = Hash cr b)) \<Longrightarrow>
     sim cr (InternalNode cs d None None tc) (InternalNode cs' d None None tc)"

inductive_cases sim_to_leafE: "sim cr a (LeafNode k v)"
inductive_cases sim_to_internalE: "sim cr a (InternalNode cs d cm hs tc)"
inductive_cases sim_from_internalE: "sim cr (InternalNode cs d cm hs tc) b"

lemma slot_hash_eq:
  assumes "length cs = length cs'"
    and "\<forall>i < length cs. (cs ! i = None \<and> cs' ! i = None) \<or>
        (\<exists>a b. cs ! i = Some a \<and> cs' ! i = Some b \<and> sim cr a b \<and> Hash cr a = Hash cr b)"
  shows "map (\<lambda>c. case c of None \<Rightarrow> 0 | Some n \<Rightarrow> Hash cr n) cs =
         map (\<lambda>c. case c of None \<Rightarrow> 0 | Some n \<Rightarrow> Hash cr n) cs'"
proof (rule nth_equalityI)
  show "length (map (\<lambda>c. case c of None \<Rightarrow> 0 | Some n \<Rightarrow> Hash cr n) cs) =
      length (map (\<lambda>c. case c of None \<Rightarrow> 0 | Some n \<Rightarrow> Hash cr n) cs')"
    using assms(1) by simp
next
  fix i assume "i < length (map (\<lambda>c. case c of None \<Rightarrow> 0 | Some n \<Rightarrow> Hash cr n) cs)"
  then have i: "i < length cs" by simp
  with assms(2) have "(cs ! i = None \<and> cs' ! i = None) \<or>
      (\<exists>a b. cs ! i = Some a \<and> cs' ! i = Some b \<and> sim cr a b \<and> Hash cr a = Hash cr b)"
    by blast
  then show "map (\<lambda>c. case c of None \<Rightarrow> 0 | Some n \<Rightarrow> Hash cr n) cs ! i =
      map (\<lambda>c. case c of None \<Rightarrow> 0 | Some n \<Rightarrow> Hash cr n) cs' ! i"
    using i assms(1) by auto
qed

lemma sim_Hash: "sim cr a b \<Longrightarrow> Hash cr a = Hash cr b"
proof (induction rule: sim.induct)
  case (sim_leaf k v)
  show ?case by simp
next
  case (sim_hashed n)
  then show ?case by (simp add: hashToFr_FrTo32)
next
  case (sim_internal cs cs' d tc)
  then show ?case using slot_hash_eq[of cs cs' cr] by simp
qed

lemma sim_commitment:
  "sim cr (InternalNode cs d cm hs tc) b \<Longrightarrow>
     ComputeCommitment cr (InternalNode cs d cm hs tc) = ComputeCommitment cr b"
  by (erule sim_from_internalE) (simp add: slot_hash_eq)

lemma sim_Hash_less: "sim cr a b \<Longrightarrow> Hash cr a < BLS_MODULUS"
  by (induction rule: sim.induct) (simp_all add: hashToFr_less)

lemma sim_refl: "wf_node w p n \<Longrightarrow> sim cr n n"
proof (induction rule: wf_node.induct)
  case (wf_leaf k p v)
  show ?case by (rule sim_leaf)
next
  case (wf_internal tc cs d p)
  show ?case
  proof (rule sim_internal)
    show "\<forall>i < length cs. (cs ! i = None \<and> cs ! i = None) \<or>
        (\<exists>a b. cs ! i = Some a \<and> cs ! i = Some b \<and> sim cr a b \<and> Hash cr a = Hash cr b)"
      using wf_internal.IH by (metis not_Some_eq)
  qed simp
qed

text \<open>
  \<open>rightmost n\<close>: in every internal node of \<open>n\<close>, a slot with a hashed node has an occupied
  slot to its right. Ordered insertion keeps this, so that a greater key never descends
  into a hashed node.
\<close>

inductive rightmost :: "VerkleNode \<Rightarrow> bool" where
  rm_leaf: "rightmost (LeafNode k v)"
| rm_hashed: "rightmost (HashedNode h)"
| rm_internal:
    "(\<forall>i h. i < length cs \<longrightarrow> cs ! i = Some (HashedNode h) \<longrightarrow> occupied_right cs i) \<Longrightarrow>
     (\<forall>i c. i < length cs \<longrightarrow> cs ! i = Some c \<longrightarrow> rightmost c) \<Longrightarrow>
     rightmost (InternalNode cs d cm hs tc)"

inductive_cases rm_internalE: "rightmost (InternalNode cs d cm hs tc)"

definition slot_sim :: "Crypto \<Rightarrow> VerkleNode option \<Rightarrow> VerkleNode option \<Rightarrow> bool" where
  "slot_sim cr x y =
     ((x = None \<and> y = None) \<or>
      (\<exists>a b. x = Some a \<and> y = Some b \<and> sim cr a b \<and> Hash cr a = Hash cr b))"

lemma sim_internal_iff:
  "sim cr (InternalNode cs d None None tc) (InternalNode cs' d None None tc) \<longleftrightarrow>
     length cs = length cs' \<and> (\<forall>i < length cs. slot_sim cr (cs ! i) (cs' ! i))"
proof
  assume "sim cr (InternalNode cs d None None tc) (InternalNode cs' d None None tc)"
  then show "length cs = length cs' \<and> (\<forall>i < length cs. slot_sim cr (cs ! i) (cs' ! i))"
    unfolding slot_sim_def by (rule sim_from_internalE) simp
next
  assume "length cs = length cs' \<and> (\<forall>i < length cs. slot_sim cr (cs ! i) (cs' ! i))"
  then show "sim cr (InternalNode cs d None None tc) (InternalNode cs' d None None tc)"
    unfolding slot_sim_def by (intro sim_internal) simp_all
qed

lemma slot_sim_None [simp]: "slot_sim cr None None"
  by (simp add: slot_sim_def)

lemma slot_sim_Some: "sim cr a b \<Longrightarrow> slot_sim cr (Some a) (Some b)"
  by (simp add: slot_sim_def sim_Hash)

lemma slot_sim_occupied: "slot_sim cr x y \<Longrightarrow> (x = None) = (y = None)"
  by (auto simp: slot_sim_def)

lemma occupied_right_iff:
  "occupied_right cs i \<longleftrightarrow> (\<exists>j. i < j \<and> j < length cs \<and> cs ! j \<noteq> None)"
proof
  assume "occupied_right cs i"
  then obtain c where "c \<in> set (drop (Suc i) cs)" and "c \<noteq> None"
    by (auto simp: occupied_right_def list_ex_iff)
  then obtain m where "m < length (drop (Suc i) cs)" and "drop (Suc i) cs ! m = c"
    by (auto simp: in_set_conv_nth)
  with \<open>c \<noteq> None\<close> have "i < Suc i + m \<and> Suc i + m < length cs \<and> cs ! (Suc i + m) \<noteq> None"
    by auto
  then show "\<exists>j. i < j \<and> j < length cs \<and> cs ! j \<noteq> None" by blast
next
  assume "\<exists>j. i < j \<and> j < length cs \<and> cs ! j \<noteq> None"
  then obtain j where j: "i < j" "j < length cs" "cs ! j \<noteq> None" by blast
  then have "j - Suc i < length (drop (Suc i) cs)" and "drop (Suc i) cs ! (j - Suc i) = cs ! j"
    by auto
  then have "cs ! j \<in> set (drop (Suc i) cs)" by (metis nth_mem)
  with j(3) show "occupied_right cs i"
    by (auto simp: occupied_right_def list_ex_iff)
qed

lemma length_condense [simp]: "length (condense cr i cs) = length cs"
  by (simp add: condense_def)

lemma condense_nth:
  assumes "j < length cs"
  shows "condense cr i cs ! j =
           (if j < i then (case cs ! j of None \<Rightarrow> None
                           | Some n \<Rightarrow> Some (HashedNode (FrTo32 (Hash cr n))))
            else cs ! j)"
proof (cases "j < i")
  case True
  with assms have "j < length (take i cs)" by simp
  then show ?thesis using True assms by (simp add: condense_def nth_append)
next
  case False
  then show ?thesis using assms by (simp add: condense_def nth_append min_def)
qed

lemma wf_keys:
  "wf_node w p n \<Longrightarrow> k \<in> keys_of n \<Longrightarrow> length k = 32 \<and> follows w k p"
proof (induction arbitrary: k rule: wf_node.induct)
  case (wf_leaf k' p v)
  then show ?case by simp
next
  case (wf_internal tc cs d p)
  from wf_internal.prems obtain j where j: "j < length cs" "k \<in> slot_keys (cs ! j)"
    unfolding keys_of_nth by auto
  then obtain c where c: "cs ! j = Some c" "k \<in> keys_of c"
    by (cases "cs ! j") (auto simp: slot_keys_def)
  with wf_internal.IH j(1) have "length k = 32 \<and> follows w k (p @ [j])" by blast
  then show ?case by (simp add: follows_snoc)
qed

lemma occupied_below:
  assumes wf: "wf_node w p (InternalNode cs d cm hs tc)" and w: "0 < w"
    and key: "follows w key p" "length key = 32"
    and less: "\<forall>k \<in> keys_of (InternalNode cs d cm hs tc). bytes_less k key"
    and j: "j < length cs" "cs ! j \<noteq> None"
  shows "j \<le> child_index key d (width tc)"
proof -
  from wf have tc: "width tc = w" "d = length p"
    and ch: "\<forall>i c. i < length cs \<longrightarrow> cs ! i = Some c \<longrightarrow>
        wf_node w (p @ [i]) c \<and> keys_of c \<noteq> {}"
    by (auto elim: wf_internalE)
  from j obtain c where c: "cs ! j = Some c" by auto
  with ch j(1) have wfc: "wf_node w (p @ [j]) c" and "keys_of c \<noteq> {}" by blast+
  then obtain k where k: "k \<in> keys_of c" by auto
  then have "k \<in> slot_keys (cs ! j)" by (simp add: c slot_keys_def)
  with j(1) have "k \<in> keys_of (InternalNode cs d cm hs tc)"
    unfolding keys_of_nth by auto
  with less have bl: "bytes_less k key" by blast
  from wf_keys[OF wfc k] have lk: "length k = 32" and fk: "follows w k p"
    and idx: "child_index k d w = j"
    by (simp_all add: follows_snoc tc)
  have same: "\<forall>m < d. child_index k m w = child_index key m w"
    using fk key(1) tc(2) by (simp add: follows_def)
  from child_index_mono[OF w lk key(2) bl same] idx tc(1) show ?thesis by simp
qed

lemma rightmost_branch: "rightmost (branch_with_leaf d tc k v)"
  unfolding branch_with_leaf_def
proof (rule rm_internal)
  let ?cs = "(replicate (nodeWidth tc) None)[child_index k d (width tc) := Some (LeafNode k v)]"
  have slot: "c = LeafNode k v" if "i < length ?cs" "?cs ! i = Some c" for i c
    using that by (cases "i = child_index k d (width tc)") (simp_all add: nth_list_update)
  show "\<forall>i h. i < length ?cs \<longrightarrow> ?cs ! i = Some (HashedNode h) \<longrightarrow> occupied_right ?cs i"
    using slot by blast
  show "\<forall>i c. i < length ?cs \<longrightarrow> ?cs ! i = Some c \<longrightarrow> rightmost c"
    using slot rm_leaf by blast
qed

lemma rightmost_update:
  assumes rm: "rightmost (InternalNode cs d cm hs tc)" and i: "i < length cs"
    and occ: "cs ! i \<noteq> None" and c: "rightmost c'" "is_internal c'"
  shows "rightmost (InternalNode (cs[i := Some c']) d' cm' hs' tc')"
proof (rule rm_internal)
  from rm have h: "\<forall>i h. i < length cs \<longrightarrow> cs ! i = Some (HashedNode h) \<longrightarrow> occupied_right cs i"
    and r: "\<forall>i c. i < length cs \<longrightarrow> cs ! i = Some c \<longrightarrow> rightmost c"
    by (auto elim: rm_internalE)
  show "\<forall>j h. j < length (cs[i := Some c']) \<longrightarrow> cs[i := Some c'] ! j = Some (HashedNode h) \<longrightarrow>
      occupied_right (cs[i := Some c']) j"
  proof (intro allI impI)
    fix j h
    assume j: "j < length (cs[i := Some c'])" and hj: "cs[i := Some c'] ! j = Some (HashedNode h)"
    have "j \<noteq> i" using hj i c(2) by auto
    with j hj h have "occupied_right cs j" by simp
    then obtain m where m: "j < m" "m < length cs" "cs ! m \<noteq> None"
      by (auto simp: occupied_right_iff)
    then have "cs[i := Some c'] ! m \<noteq> None" by (cases "m = i") simp_all
    with m show "occupied_right (cs[i := Some c']) j"
      by (auto simp: occupied_right_iff)
  qed
  show "\<forall>j c. j < length (cs[i := Some c']) \<longrightarrow> cs[i := Some c'] ! j = Some c \<longrightarrow> rightmost c"
  proof (intro allI impI)
    fix j c
    assume j: "j < length (cs[i := Some c'])" and cj: "cs[i := Some c'] ! j = Some c"
    show "rightmost c"
    proof (cases "j = i")
      case True
      with cj i c(1) show ?thesis by simp
    next
      case False
      with cj j r show ?thesis by simp
    qed
  qed
qed

lemma sim_internal_shape:
  assumes "sim cr t (InternalNode cs d cm hs tc)" and "is_internal t"
  obtains cs' where "t = InternalNode cs' d None None tc" and "cm = None" and "hs = None"
    and "length cs' = length cs" and "\<forall>i < length cs. slot_sim cr (cs' ! i) (cs ! i)"
  using assms
proof (cases rule: sim.cases)
  case (sim_hashed)
  with assms(2) show ?thesis by simp
next
  case (sim_internal cs')
  then have "sim cr (InternalNode cs' d None None tc) (InternalNode cs d None None tc)"
    using assms(1) by simp
  then have "length cs' = length cs \<and> (\<forall>i < length cs'. slot_sim cr (cs' ! i) (cs ! i))"
    by (auto simp: sim_internal_iff)
  with sim_internal that show ?thesis by auto
qed

lemma ordered_step:
  assumes "wf_node w p tp" and "is_internal tp" and "sim cr t tp" and "is_internal t"
    and "rightmost t" and "follows w key p" and "length key = 32" and "0 < w"
    and "\<forall>k \<in> keys_of tp. bytes_less k key"
  shows "\<exists>t' tp'. InsertOrdered cr t key val = Inr t' \<and> Insert tp key val = Inr tp' \<and>
           sim cr t' tp' \<and> is_internal t' \<and> rightmost t' \<and>
           wf_node w p tp' \<and> is_internal tp' \<and> keys_of tp' = insert key (keys_of tp)"
  using assms
proof (induction tp key val arbitrary: p t rule: Insert.induct)
  case (1 cs d cm hs tc key val)
  let ?tp = "InternalNode cs d cm hs tc"
  let ?i = "child_index key d (width tc)"
  note wf = "1.prems"(1)
  from wf have tc: "width tc = w" "nodeWidth tc = 2 ^ w" "length cs = 2 ^ w" "d = length p"
    and ch: "\<forall>i c. i < length cs \<longrightarrow> cs ! i = Some c \<longrightarrow>
        wf_node w (p @ [i]) c \<and> keys_of c \<noteq> {}"
    by (auto elim: wf_internalE)
  from "1.prems"(3,4) obtain co where t: "t = InternalNode co d None None tc"
    and caches: "cm = None" "hs = None"
    and len: "length co = length cs" and slots: "\<forall>i < length cs. slot_sim cr (co ! i) (cs ! i)"
    by (rule sim_internal_shape)
  have i: "?i < length cs" using child_index_less[of key d w] tc by simp
  have fk: "follows w key (p @ [?i])" using "1.prems"(6) tc by (simp add: follows_snoc)
  have below: "j \<le> ?i" if "j < length cs" "cs ! j \<noteq> None" for j
    using occupied_below[OF wf "1.prems"(8,6,7,9) that] .
  have occ_eq: "(co ! j = None) = (cs ! j = None)" if "j < length cs" for j
    using slots that slot_sim_occupied by blast
  have nr_o: "\<not> occupied_right co ?i"
  proof
    assume "occupied_right co ?i"
    then obtain j where j: "?i < j" "j < length co" "co ! j \<noteq> None"
      by (auto simp: occupied_right_iff)
    then have "cs ! j \<noteq> None" using occ_eq[of j] len by simp
    with below[of j] j len show False by simp
  qed
  from "1.prems"(5) t have rm_h: "\<forall>j h. j < length co \<longrightarrow> co ! j = Some (HashedNode h) \<longrightarrow>
      occupied_right co j"
    and rm_c: "\<forall>j c. j < length co \<longrightarrow> co ! j = Some c \<longrightarrow> rightmost c"
    by (auto elim: rm_internalE)
  from Insert_correct[OF wf "1.prems"(2,6,7,8), of val]
  obtain tp' where tp': "Insert ?tp key val = Inr tp'" "wf_node w p tp'" "is_internal tp'"
    "keys_of tp' = insert key (keys_of ?tp)"
    by blast
  have not_hashed: "co ! ?i \<noteq> Some (HashedNode h)" for h
    using rm_h nr_o i len by auto
  show ?case
  proof (cases "cs ! ?i")
    case None
    then have co_none: "co ! ?i = None" using occ_eq[OF i] by simp
    let ?t' = "InternalNode ((condense cr ?i co)[?i := Some (LeafNode key val)]) d None None tc"
    let ?tp' = "InternalNode (cs[?i := Some (LeafNode key val)]) d None None tc"
    have ins_o: "InsertOrdered cr t key val = Inr ?t'"
      using i len nr_o co_none by (simp add: t Let_def)
    have ins_p: "tp' = ?tp'"
      using tp'(1) i None by (simp add: Let_def)
    have s: "slot_sim cr ((condense cr ?i co)[?i := Some (LeafNode key val)] ! j)
        (cs[?i := Some (LeafNode key val)] ! j)" if j: "j < length cs" for j
    proof (cases "j = ?i")
      case True
      then show ?thesis using i len by (simp add: slot_sim_Some sim_leaf)
    next
      case False
      show ?thesis
      proof (cases "j < ?i")
        case True
        from slots j have "slot_sim cr (co ! j) (cs ! j)" by blast
        then consider "co ! j = None" "cs ! j = None"
          | a b where "co ! j = Some a" "cs ! j = Some b" "sim cr a b" "Hash cr a = Hash cr b"
          by (auto simp: slot_sim_def)
        then show ?thesis
        proof cases
          case 1
          then show ?thesis using True False j len by (simp add: condense_nth)
        next
          case 2
          have "Hash cr b < BLS_MODULUS" using sim_Hash_less[OF 2(3)] 2(4) by simp
          then have "sim cr (HashedNode (FrTo32 (Hash cr b))) b" by (rule sim_hashed)
          then show ?thesis
            using True False j len 2 by (simp add: condense_nth slot_sim_Some)
        qed
      next
        case gt: False
        with False have "?i < j" by simp
        with below[OF j] have "cs ! j = None" by fastforce
        moreover from this have "co ! j = None" using occ_eq[OF j] by simp
        ultimately show ?thesis using False gt j len by (simp add: condense_nth)
      qed
    qed
    have sim': "sim cr ?t' ?tp'"
      using s len by (simp add: sim_internal_iff)
    have rm': "rightmost ?t'"
    proof (rule rm_internal)
      let ?co' = "(condense cr ?i co)[?i := Some (LeafNode key val)]"
      show "\<forall>j h. j < length ?co' \<longrightarrow> ?co' ! j = Some (HashedNode h) \<longrightarrow> occupied_right ?co' j"
      proof (intro allI impI)
        fix j h
        assume j: "j < length ?co'" and hj: "?co' ! j = Some (HashedNode h)"
        then have ne: "j \<noteq> ?i" using i len by auto
        have "j < ?i"
        proof (rule ccontr)
          assume "\<not> j < ?i"
          with ne have gt: "?i < j" by simp
          with j hj len have "co ! j = Some (HashedNode h)" by (simp add: condense_nth)
          moreover have "co ! j = None" using below[of j] occ_eq[of j] gt j len by fastforce
          ultimately show False by simp
        qed
        moreover have "?co' ! ?i \<noteq> None" using i len by simp
        ultimately show "occupied_right ?co' j"
          using i len by (auto simp: occupied_right_iff)
      qed
      show "\<forall>j c. j < length ?co' \<longrightarrow> ?co' ! j = Some c \<longrightarrow> rightmost c"
      proof (intro allI impI)
        fix j c
        assume j: "j < length ?co'" and cj: "?co' ! j = Some c"
        show "rightmost c"
        proof (cases "j = ?i")
          case True
          with cj i len show ?thesis by (auto intro: rm_leaf)
        next
          case False
          show ?thesis
          proof (cases "j < ?i")
            case True
            with False cj j len show ?thesis
              by (auto simp: condense_nth intro: rm_hashed split: option.splits)
          next
            case ge: False
            with False cj j len have "co ! j = Some c" by (simp add: condense_nth)
            with rm_c j len show ?thesis by simp
          qed
        qed
      qed
    qed
    from ins_o ins_p tp' sim' rm' show ?thesis by auto
  next
    case (Some c)
    from ch i Some have wfc: "wf_node w (p @ [?i]) c" by blast
    from slots i Some obtain a where a: "co ! ?i = Some a" "sim cr a c" "Hash cr a = Hash cr c"
      by (auto simp: slot_sim_def)
    have sub: "keys_of c \<subseteq> keys_of ?tp"
    proof -
      have "keys_of c = slot_keys (cs ! ?i)" by (simp add: Some slot_keys_def)
      then show ?thesis using i unfolding keys_of_nth by blast
    qed
    have upd_sim: "sim cr (InternalNode (co[?i := Some a']) d None None tc)
        (InternalNode (cs[?i := Some c']) d None None tc)" if "sim cr a' c'" for a' c'
    proof -
      have "slot_sim cr (co[?i := Some a'] ! j) (cs[?i := Some c'] ! j)" if "j < length cs" for j
        using that slots len i \<open>sim cr a' c'\<close>
        by (cases "j = ?i") (simp_all add: slot_sim_Some)
      then show ?thesis using len by (simp add: sim_internal_iff)
    qed
    have upd_rm: "rightmost (InternalNode (co[?i := Some a']) d None None tc)"
      if "rightmost a'" "is_internal a'" for a'
      using rightmost_update[OF _ _ _ that, of co d None None tc ?i d None None tc]
        "1.prems"(5) t i len a(1) by simp
    show ?thesis
    proof (cases c)
      case (LeafNode k v)
      from a(2) LeafNode not_hashed a(1) have a_leaf: "a = LeafNode k v"
        by (auto elim: sim_to_leafE)
      have lk: "length k = 32" and fl: "follows w k (p @ [?i])"
        using wfc LeafNode by (auto elim: wf_leafE)
      have "k \<in> keys_of ?tp" using sub LeafNode by simp
      with "1.prems"(9) have bl: "bytes_less k key" by blast
      then have ne: "k \<noteq> key" using bytes_less_irrefl by blast
      have depth: "\<not> d + 1 > maxDepth (width tc)"
      proof
        assume "d + 1 > maxDepth (width tc)"
        then have "maxDepth w \<le> length (p @ [?i])" using tc by simp
        from follows_depth[OF fl fk this] have "k = key"
          using keys_equal[OF "1.prems"(8) lk "1.prems"(7)] by blast
        with ne show False by simp
      qed
      let ?b = "branch_with_leaf (d + 1) tc k v"
      have wfb: "wf_node w (p @ [?i]) ?b"
        using wf_branch_with_leaf[OF tc(1,2) lk fl] tc(4) by simp
      have ib: "is_internal ?b" by (simp add: branch_with_leaf_def)
      have kb: "\<forall>k' \<in> keys_of ?b. bytes_less k' key"
        using keys_of_branch_with_leaf[of tc "d + 1" k v] tc bl by simp
      from "1.IH"(1)[OF refl _ Some LeafNode ne depth wfb ib sim_refl[OF wfb] ib
          rightmost_branch fk "1.prems"(7,8) kb] i
      obtain b' bp' where b': "InsertOrdered cr ?b key val = Inr b'" "Insert ?b key val = Inr bp'"
        "sim cr b' bp'" "is_internal b'" "rightmost b'"
        by auto
      let ?t' = "InternalNode (co[?i := Some b']) d None None tc"
      let ?tp' = "InternalNode (cs[?i := Some bp']) d None None tc"
      have ins_o: "InsertOrdered cr t key val = Inr ?t'"
        using i len nr_o a(1) a_leaf ne depth b'(1) by (simp add: t Let_def)
      have ins_p: "tp' = ?tp'"
        using tp'(1) i Some LeafNode ne depth b'(2) by (simp add: Let_def)
      from ins_o ins_p tp' upd_sim[OF b'(3)] upd_rm[OF b'(5,4)] show ?thesis by auto
    next
      case (HashedNode h)
      with wfc show ?thesis by (auto elim: wf_hashedE)
    next
      case (InternalNode cs' d' cm' hs' tc')
      have ic: "is_internal c" using InternalNode by simp
      from a(2) InternalNode obtain ca where "a = InternalNode ca d' None None tc' \<or> (\<exists>h. a = HashedNode h)"
        by (auto elim: sim_to_internalE)
      with not_hashed a(1) have ia: "is_internal a" by auto
      have rma: "rightmost a" using rm_c a(1) i len by simp
      have kc: "\<forall>k \<in> keys_of c. bytes_less k key" using sub "1.prems"(9) by blast
      from "1.IH"(2)[OF refl _ Some InternalNode, of "p @ [?i]" a] i wfc ic a(2) ia rma fk
        "1.prems"(7,8) kc InternalNode
      obtain a' c' where c': "InsertOrdered cr a key val = Inr a'" "Insert c key val = Inr c'"
        "sim cr a' c'" "is_internal a'" "rightmost a'"
        by auto
      from ia obtain ca da cma hsa tca where a_int: "a = InternalNode ca da cma hsa tca"
        by (cases a) auto
      let ?t' = "InternalNode (co[?i := Some a']) d None None tc"
      let ?tp' = "InternalNode (cs[?i := Some c']) d None None tc"
      have ins_o: "InsertOrdered cr t key val = Inr ?t'"
        using i len nr_o a(1) a_int c'(1) by (simp add: t Let_def)
      have ins_p: "tp' = ?tp'"
        using tp'(1) i Some InternalNode c'(2) by (simp add: Let_def)
      from ins_o ins_p tp' upd_sim[OF c'(3)] upd_rm[OF c'(5,4)] show ?thesis by auto
    qed
  qed
next
  case (2 k v key val)
  then show ?case by simp
next
  case (3 h key val)
  then show ?case by simp
qed

lemma insert_all_ordered_append:
  "insert_all_ordered cr n (kvs @ [(k, v)]) =
     (case insert_all_ordered cr n kvs of Inl err \<Rightarrow> Inl err | Inr n' \<Rightarrow> InsertOrdered cr n' k v)"
  by (induction cr n kvs rule: insert_all_ordered.induct) (auto split: sum.splits)

lemma rightmost_New: "rightmost (New w)"
  unfolding New_def newInternalNode_def by (rule rm_internal) simp_all

lemma insert_all_ordered_sim:
  assumes "0 < w" and "\<forall>kv \<in> set kvs. length (fst kv) = 32"
    and "sorted_wrt bytes_less (map fst kvs)"
  shows "\<exists>t tp. insert_all_ordered cr (New w) kvs = Inr t \<and> insert_all (New w) kvs = Inr tp \<and>
           sim cr t tp \<and> is_internal t \<and> rightmost t \<and> wf_node w [] tp \<and> is_internal tp \<and>
           keys_of tp = set (map fst kvs)"
  using assms(2,3)
proof (induction kvs rule: rev_induct)
  case Nil
  have "keys_of (New w) = {}" by (auto simp: New_def newInternalNode_def)
  moreover have "is_internal (New w)" by (simp add: New_def newInternalNode_def)
  ultimately show ?case
    using wf_New[of w] sim_refl[OF wf_New[of w], where cr=cr] rightmost_New[of w] by simp
next
  case (snoc kv kvs)
  obtain k v where kv: "kv = (k, v)" by (cases kv)
  from snoc.prems have len: "\<forall>kv \<in> set kvs. length (fst kv) = 32" and lk: "length k = 32"
    and sorted: "sorted_wrt bytes_less (map fst kvs)"
    and above: "\<forall>k' \<in> set (map fst kvs). bytes_less k' k"
    by (auto simp: kv sorted_wrt_append)
  from snoc.IH[OF len sorted] obtain t tp where
    t: "insert_all_ordered cr (New w) kvs = Inr t" "insert_all (New w) kvs = Inr tp"
      "sim cr t tp" "is_internal t" "rightmost t" "wf_node w [] tp" "is_internal tp"
      "keys_of tp = set (map fst kvs)"
    by blast
  have fk: "follows w k []" by (simp add: follows_def)
  have less: "\<forall>k' \<in> keys_of tp. bytes_less k' k" using above t(8) by simp
  from ordered_step[OF t(6,7,3,4,5) fk lk assms(1) less, of v]
  obtain t' tp' where t': "InsertOrdered cr t k v = Inr t'" "Insert tp k v = Inr tp'"
    "sim cr t' tp'" "is_internal t'" "rightmost t'" "wf_node w [] tp'" "is_internal tp'"
    "keys_of tp' = insert k (keys_of tp)"
    by blast
  have "insert_all_ordered cr (New w) (kvs @ [kv]) = Inr t'"
    using t(1) t'(1) by (simp add: kv insert_all_ordered_append)
  moreover have "insert_all (New w) (kvs @ [kv]) = Inr tp'"
    using t(2) t'(2) by (simp add: kv insert_all_append)
  moreover have "keys_of tp' = set (map fst (kvs @ [kv]))"
    using t'(8) t(8) by (simp add: kv)
  ultimately show ?case using t'(3,4,5,6,7) by blast
qed

text \<open>
  Claim C5. For every list of pairs whose keys have 32 bytes and increase strictly in
  the byte-wise order, inserting the pairs one after the other into a new tree succeeds
  with \<^verbatim>\<open>InsertOrdered\<close> and with \<^verbatim>\<open>Insert\<close>, and \<^verbatim>\<open>ComputeCommitment\<close> gives the same root
  commitment for the two trees.
\<close>

theorem InsertOrdered_same_commitment:
  assumes "0 < w" and "\<forall>kv \<in> set kvs. length (fst kv) = 32"
    and "sorted_wrt bytes_less (map fst kvs)"
  shows "\<exists>t tp c. insert_all_ordered cr (New w) kvs = Inr t \<and> insert_all (New w) kvs = Inr tp \<and>
           ComputeCommitment cr t = Some c \<and> ComputeCommitment cr tp = Some c"
proof -
  from insert_all_ordered_sim[OF assms, of cr] obtain t tp where
    t: "insert_all_ordered cr (New w) kvs = Inr t" "insert_all (New w) kvs = Inr tp"
      "sim cr t tp" "is_internal t"
    by blast
  from t(4) obtain cs d cm hs tc where n: "t = InternalNode cs d cm hs tc" by (cases t) auto
  with t(3) have "ComputeCommitment cr t = ComputeCommitment cr tp"
    using sim_commitment by simp
  moreover from n obtain c where "ComputeCommitment cr t = Some c" by simp
  ultimately show ?thesis using t(1,2) by (metis)
qed

text \<open>
  The three keys of \<^verbatim>\<open>TestComputeRootCommitmentOnlineThreeLeaves\<close> and of
  \<^verbatim>\<open>TestComputeRootCommitmentThreeLeaves\<close>, with stand-ins for the functions of the curve
  library.
\<close>

definition exampleCrypto :: Crypto where
  "exampleCrypto =
     \<lparr>sha256 = (\<lambda>b. take 32 (rev b @ replicate 32 0)),
      LinCombG1 = (\<lambda>ps xs. concat (map FrTo32 xs)),
      LinCombGBomb = (\<lambda>ps xs. concat (map FrTo32 xs)),
      multiExpThreshold = 110,
      lg1 = []\<rparr>"

theorem InsertOrdered_same_commitment_witness:
  "\<exists>t tp c.
     insert_all_ordered exampleCrypto (New 10)
       [(zeroKeyTest, testValue), (fourtyKeyTest, testValue), (ffx32KeyTest, testValue)] = Inr t \<and>
     insert_all (New 10)
       [(zeroKeyTest, testValue), (fourtyKeyTest, testValue), (ffx32KeyTest, testValue)] = Inr tp \<and>
     ComputeCommitment exampleCrypto t = Some c \<and> ComputeCommitment exampleCrypto tp = Some c"
proof -
  let ?kvs = "[(zeroKeyTest, testValue), (fourtyKeyTest, testValue), (ffx32KeyTest, testValue)]"
  have w: "0 < (10::nat)" by simp
  have len: "\<forall>kv \<in> set ?kvs. length (fst kv) = 32"
    by (simp add: zeroKeyTest_def fourtyKeyTest_def ffx32KeyTest_def)
  have sorted: "sorted_wrt bytes_less (map fst ?kvs)"
    by code_simp
  show ?thesis
    by (rule InsertOrdered_same_commitment[OF w len sorted])
qed

end
